theory Spec2Isabelle
  imports Main "HOL-Library.Word"
begin

unbundle bit_operations_syntax

section \<open>Entropy device (drivers/virtio-rng.cc)\<close>

text \<open>
  The state of an \<open>rng\<close> object that the entropy paths touch: the pool
  \<open>_entropy\<close> (a deque of bytes, front first), the number of \<open>wake_one\<close> calls made on
  the \<open>_producer\<close> condition, the number of \<open>wake_all\<close> calls made on the
  \<open>_consumer\<close> condition, and the sizes of the host-writable buffers staged with
  \<open>add_in_sg\<close>, latest first.
\<close>

record rng =
  entropy :: "8 word list"
  producer_wakes :: nat
  consumer_wakes :: nat
  sg_log :: "nat list"

text \<open>
  \<open>cond.wait_until(mtx, pred)\<close>: the predicate is tested with the mutex held; while
  it is false the mutex is released, the other threads run (the next entry of the
  schedule, a transformer of the shared state) and the test is repeated. A schedule
  that ends with the predicate still false leaves the caller blocked: \<open>None\<close>.
\<close>

fun wait_until :: "('s \<Rightarrow> bool) \<Rightarrow> ('s \<Rightarrow> 's) list \<Rightarrow> 's \<Rightarrow> 's option" where
  "wait_until pred [] s = (if pred s then Some s else None)"
| "wait_until pred (other # sched) s =
     (if pred s then Some s else wait_until pred sched (other s))"

text \<open>
  \<open>copy_n(first, len, buf)\<close> into memory reached through a \<open>char*\<close>: the cells
  \<open>buf[0] .. buf[len - 1]\<close> are overwritten, every other cell is kept.
\<close>

definition copy_n :: "8 word list \<Rightarrow> nat \<Rightarrow> (nat \<Rightarrow> 8 word) \<Rightarrow> (nat \<Rightarrow> 8 word)" where
  "copy_n src len buf = (\<lambda>i. if i < len then src ! i else buf i)"

text \<open>\<open>rng::get_random_bytes(buf, size)\<close>; \<open>sched\<close> is what the other threads do
  while the caller waits on \<open>_consumer\<close>.\<close>

definition get_random_bytes ::
  "(rng \<Rightarrow> rng) list \<Rightarrow> (nat \<Rightarrow> 8 word) \<Rightarrow> nat \<Rightarrow> rng \<Rightarrow> (nat \<times> (nat \<Rightarrow> 8 word) \<times> rng) option" where
  "get_random_bytes sched buf sz s =
     (case wait_until (\<lambda>s. length (entropy s) > 0) sched s of
        None \<Rightarrow> None
      | Some s1 \<Rightarrow>
          let len = min (length (entropy s1)) sz;
              buf' = copy_n (entropy s1) len buf;
              s2 = s1\<lparr>entropy := drop len (entropy s1)\<rparr>;
              s3 = s2\<lparr>producer_wakes := producer_wakes s2 + 1\<rparr>
          in Some (len, buf', s3))"

text \<open>
  A consumer that runs its critical section while another thread has released the
  mutex. One that finds the pool empty stays blocked and changes nothing.
\<close>

definition consumer :: "nat \<Rightarrow> rng \<Rightarrow> rng" where
  "consumer sz s =
     (case get_random_bytes [] (\<lambda>_. 0) sz s of None \<Rightarrow> s | Some (_, _, s') \<Rightarrow> s')"

text \<open>
  Why a producer iteration does not come back: the wait on \<open>_producer\<close> never ends,
  or the device never completes the buffer.
\<close>

datatype stall = Pool_full | Never_completed

text \<open>
  \<open>rng::refill\<close>. \<open>remaining\<close> is a \<open>size_t\<close> difference and wraps at \<open>2 ^ 64\<close>.
  Inside \<open>DROP_LOCK\<close> the mutex is free: \<open>during\<close> lists the sizes requested by the
  consumers that run meanwhile. The DMA interaction with the queue is represented by
  its outcome \<open>reply\<close>: nothing (the waits never end), or the length \<open>len\<close> that
  \<open>get_buf_elem\<close> reports and the bytes found from \<open>buf.data()\<close> on once the device
  is done, zero where the list ends. The function does not compare \<open>len\<close> with
  \<open>remaining\<close>: \<open>copy_n\<close> appends \<open>len\<close> bytes, and for a \<open>len\<close> above
  \<open>remaining\<close> it reads on past the end of \<open>buf\<close>.
\<close>

definition refill ::
  "nat \<Rightarrow> nat list \<Rightarrow> (32 word \<times> 8 word list) option \<Rightarrow> rng \<Rightarrow> stall + rng" where
  "refill pool_size during reply s =
     (let remaining = (if length (entropy s) \<le> pool_size
                       then pool_size - length (entropy s)
                       else 2 ^ 64 - (length (entropy s) - pool_size));
          s1 = s\<lparr>sg_log := remaining # sg_log s\<rparr>;
          s2 = fold consumer during s1
      in case reply of
           None \<Rightarrow> Inl Never_completed
         | Some (len, written) \<Rightarrow>
             Inr (s2\<lparr>entropy := entropy s2 @
                       take (unat len) (written @ replicate (unat len) 0)\<rparr>))"

text \<open>
  One iteration of the loop of \<open>rng::worker\<close>; \<open>waiting\<close> lists the sizes requested
  by the consumers that run while the producer waits for room.
\<close>

definition worker_iteration ::
  "nat \<Rightarrow> nat list \<Rightarrow> nat list \<Rightarrow> (32 word \<times> 8 word list) option \<Rightarrow> rng \<Rightarrow> stall + rng" where
  "worker_iteration pool_size waiting during reply s =
     (case wait_until (\<lambda>s. length (entropy s) < pool_size) (map consumer waiting) s of
        None \<Rightarrow> Inl Pool_full
      | Some s1 \<Rightarrow>
          (case refill pool_size during reply s1 of
             Inl e \<Rightarrow> Inl e
           | Inr s2 \<Rightarrow> Inr (s2\<lparr>consumer_wakes := consumer_wakes s2 + 1\<rparr>)))"

text \<open>The threads of the entropy device as a sequence of critical sections: a
  consumer call, or an iteration of the producer.\<close>

datatype rng_event =
  Get nat
| Produce "nat list" "nat list" "(32 word \<times> 8 word list) option"

fun rng_step :: "nat \<Rightarrow> rng_event \<Rightarrow> rng \<Rightarrow> stall + rng" where
  "rng_step pool_size (Get sz) s = Inr (consumer sz s)"
| "rng_step pool_size (Produce waiting during reply) s =
     worker_iteration pool_size waiting during reply s"

fun rng_run :: "nat \<Rightarrow> rng_event list \<Rightarrow> rng \<Rightarrow> stall + rng" where
  "rng_run pool_size [] s = Inr s"
| "rng_run pool_size (e # es) s =
     (case rng_step pool_size e s of Inl x \<Rightarrow> Inl x | Inr s' \<Rightarrow> rng_run pool_size es s')"

text \<open>
  The condition under which the bound on the pool is stated: in each producer
  iteration of a run, the length the device reports is at most the size of the buffer
  it was given, \<open>pool_size\<close> minus the size of the pool when the wait ended.
\<close>

fun reply_in_bounds :: "nat \<Rightarrow> rng_event \<Rightarrow> rng \<Rightarrow> bool" where
  "reply_in_bounds pool_size (Get sz) s = True"
| "reply_in_bounds pool_size (Produce waiting during reply) s =
     (case wait_until (\<lambda>s. length (entropy s) < pool_size) (map consumer waiting) s of
        None \<Rightarrow> True
      | Some s1 \<Rightarrow>
          (case reply of
             None \<Rightarrow> True
           | Some (len, written) \<Rightarrow> unat len \<le> pool_size - length (entropy s1)))"

fun replies_in_bounds :: "nat \<Rightarrow> rng_event list \<Rightarrow> rng \<Rightarrow> bool" where
  "replies_in_bounds pool_size [] s = True"
| "replies_in_bounds pool_size (e # es) s =
     (reply_in_bounds pool_size e s \<and>
      (case rng_step pool_size e s of
         Inl x \<Rightarrow> True
       | Inr s' \<Rightarrow> replies_in_bounds pool_size es s'))"

section \<open>Transport core (drivers/virtio.cc)\<close>

text \<open>
  What a driver does to the world outside its own object, in program order: calls on
  the PCI function, accesses to the registers behind BAR1, and allocations of vrings.
\<close>

datatype action =
  Set_bus_master
| Msix_enable
| Write_status "8 word"
| Write_queue_sel "16 word"
| Read_queue_num
| New_vring nat "16 word"
| Write_queue_vector "16 word"
| Read_queue_vector
| Write_queue_pfn "32 word"

text \<open>
  A \<open>virtio_driver\<close> object with the PCI function \<open>_dev\<close> it is bound to.
  \<^item> The function as the PCI service presents it: whether \<open>_dev.parse_pci_config()\<close>
    succeeds, whether \<open>_dev.get_bar(1)\<close> is there, revision, device ID,
    \<open>_dev.is_msix()\<close>.
  \<^item> What the host answers: for queue \<open>i\<close>, the size read from \<open>QUEUE_NUM\<close>
    (\<open>host_queue_num ! i\<close>, 0 past the end of the table) and the value read back from
    \<open>MSI_QUEUE_VECTOR\<close> (\<open>host_queue_vector ! i\<close>, \<open>0xFFFF\<close>, no vector, past the
    end); \<open>vring_paddr ! i\<close> is the physical address of the ring memory allocated for
    the \<open>i\<close>-th vring.
  \<^item> The registers \<open>STATUS\<close> and \<open>QUEUE_SEL\<close>, which hold what was last written.
  \<^item> The fields of the object: \<open>_bar1\<close> (set or null), \<open>_num_queues\<close>, and
    \<open>_queues\<close>, an array of \<open>max_virtqueues_nr\<close> entries holding the size of each
    vring created.
\<close>

record driver =
  pci_parse_ok :: bool
  pci_has_bar1 :: bool
  revision_id :: "8 word"
  device_id :: "16 word"
  is_msix :: bool
  host_queue_num :: "16 word list"
  host_queue_vector :: "16 word list"
  vring_paddr :: "64 word list"
  reg_status :: "8 word"
  reg_queue_sel :: "16 word"
  bar1 :: bool
  num_queues :: nat
  queues :: "16 word option list"
  trace :: "action list"

text \<open>A register access through a null \<open>_bar1\<close> ends the run in the state reached.\<close>

datatype fault = Null_bar1 (fault_state: driver)

text \<open>Constants of the virtio PCI transport, from \<open>drivers/virtio.hh\<close>.\<close>

definition VIRTIO_PCI_ABI_VERSION :: "8 word" where "VIRTIO_PCI_ABI_VERSION = 0"
definition VIRTIO_PCI_ID_MIN :: "16 word" where "VIRTIO_PCI_ID_MIN = 0x1000"
definition VIRTIO_PCI_ID_MAX :: "16 word" where "VIRTIO_PCI_ID_MAX = 0x103f"
definition VIRTIO_PCI_QUEUE_ADDR_SHIFT :: nat where "VIRTIO_PCI_QUEUE_ADDR_SHIFT = 12"
definition VIRTIO_CONFIG_S_ACKNOWLEDGE :: "8 word" where "VIRTIO_CONFIG_S_ACKNOWLEDGE = 1"
definition VIRTIO_CONFIG_S_DRIVER :: "8 word" where "VIRTIO_CONFIG_S_DRIVER = 2"
definition VIRTIO_CONFIG_S_DRIVER_OK :: "8 word" where "VIRTIO_CONFIG_S_DRIVER_OK = 4"

definition act :: "action \<Rightarrow> driver \<Rightarrow> driver" where
  "act a d = d\<lparr>trace := trace d @ [a]\<rparr>"

text \<open>\<open>virtio_driver::parse_pci_config\<close>.\<close>

definition parse_pci_config :: "driver \<Rightarrow> bool \<times> driver" where
  "parse_pci_config d =
     (if \<not> pci_parse_ok d then (False, d)
      else let d1 = d\<lparr>bar1 := pci_has_bar1 d\<rparr>
           in if \<not> bar1 d1 then (False, d1)
              else if revision_id d1 \<noteq> VIRTIO_PCI_ABI_VERSION then (False, d1)
              else if device_id d1 < VIRTIO_PCI_ID_MIN \<or> device_id d1 > VIRTIO_PCI_ID_MAX
                   then (False, d1)
              else (True, d1))"

text \<open>\<open>get_dev_status\<close>, \<open>set_dev_status\<close>, \<open>add_dev_status\<close>, \<open>del_dev_status\<close>,
  \<open>reset_host_side\<close>.\<close>

definition get_dev_status :: "driver \<Rightarrow> fault + 8 word" where
  "get_dev_status d = (if bar1 d then Inr (reg_status d) else Inl (Null_bar1 d))"

definition set_dev_status :: "8 word \<Rightarrow> driver \<Rightarrow> fault + driver" where
  "set_dev_status status d =
     (if bar1 d then Inr (act (Write_status status) (d\<lparr>reg_status := status\<rparr>))
      else Inl (Null_bar1 d))"

definition add_dev_status :: "8 word \<Rightarrow> driver \<Rightarrow> fault + driver" where
  "add_dev_status status d =
     (case get_dev_status d of
        Inl f \<Rightarrow> Inl f
      | Inr cur \<Rightarrow> set_dev_status (cur OR status) d)"

definition del_dev_status :: "8 word \<Rightarrow> driver \<Rightarrow> fault + driver" where
  "del_dev_status status d =
     (case get_dev_status d of
        Inl f \<Rightarrow> Inl f
      | Inr cur \<Rightarrow> set_dev_status (cur AND NOT status) d)"

definition reset_host_side :: "driver \<Rightarrow> fault + driver" where
  "reset_host_side d = set_dev_status 0 d"

text \<open>
  The constructor \<open>virtio_driver::virtio_driver\<close>, on an object whose PCI part is
  given: the initialiser list, the loop clearing \<open>_queues\<close>, then the calls of the
  body. The result of \<open>parse_pci_config()\<close> is not used.
\<close>

definition virtio_driver :: "nat \<Rightarrow> driver \<Rightarrow> fault + driver" where
  "virtio_driver max_virtqueues_nr d0 =
     (let d1 = d0\<lparr>num_queues := 0, bar1 := False, queues := replicate max_virtqueues_nr None\<rparr>;
          d2 = snd (parse_pci_config d1);
          d3 = act Set_bus_master d2;
          d4 = act Msix_enable d3
      in case reset_host_side d4 of
           Inl f \<Rightarrow> Inl f
         | Inr d5 \<Rightarrow> add_dev_status (VIRTIO_CONFIG_S_ACKNOWLEDGE OR VIRTIO_CONFIG_S_DRIVER) d5)"

text \<open>The answers of the host for the queue selected.\<close>

definition read_queue_num :: "driver \<Rightarrow> 16 word" where
  "read_queue_num d =
     (let i = unat (reg_queue_sel d)
      in if i < length (host_queue_num d) then host_queue_num d ! i else 0)"

definition read_queue_vector :: "driver \<Rightarrow> 16 word" where
  "read_queue_vector d =
     (let i = unat (reg_queue_sel d)
      in if i < length (host_queue_vector d) then host_queue_vector d ! i else 0xFFFF)"

definition get_paddr :: "driver \<Rightarrow> nat \<Rightarrow> 64 word" where
  "get_paddr d i = (if i < length (vring_paddr d) then vring_paddr d ! i else 0)"

text \<open>
  \<open>virtio_driver::probe_virt_queues\<close>. \<open>probe_queue\<close> is the body of the
  \<open>do ... while (true)\<close> loop after the test of \<open>max_virtqueues_nr\<close>, with \<open>True\<close>
  when the loop goes round again; \<open>ncpus\<close> is \<open>sched::cpus.size()\<close>. The first
  register access of an iteration faults on a null \<open>_bar1\<close>, which does not change in
  the loop.
\<close>

definition probe_queue :: "nat \<Rightarrow> driver \<Rightarrow> bool \<times> driver" where
  "probe_queue ncpus d =
     (let d1 = act (Write_queue_sel (of_nat (num_queues d)))
                 (d\<lparr>reg_queue_sel := of_nat (num_queues d)\<rparr>);
          qsize = read_queue_num d1;
          d2 = act Read_queue_num d1
      in if 0 = qsize then (False, d2)
         else
           let d3 = act (New_vring (num_queues d2) qsize)
                      (d2\<lparr>queues := (queues d2)[num_queues d2 := Some qsize]\<rparr>);
               d4 = (if is_msix d3
                     then act Read_queue_vector
                            (act (Write_queue_vector (of_nat (num_queues d3))) d3)
                     else d3)
           in if is_msix d3 \<and> unat (read_queue_vector d4) \<noteq> num_queues d3 then (False, d4)
              else
                let d5 = d4\<lparr>num_queues := num_queues d4 + 1\<rparr>;
                    d6 = act (Write_queue_pfn
                               (ucast (drop_bit VIRTIO_PCI_QUEUE_ADDR_SHIFT
                                         (get_paddr d5 (num_queues d5 - 1))))) d5
                in if num_queues d6 \<ge> 2 * ncpus then (False, d6) else (True, d6))"

function probe_virt_queues :: "nat \<Rightarrow> nat \<Rightarrow> driver \<Rightarrow> fault + driver" where
  "probe_virt_queues max_virtqueues_nr ncpus d =
     (if num_queues d \<ge> max_virtqueues_nr then Inr d
      else if \<not> bar1 d then Inl (Null_bar1 d)
      else case probe_queue ncpus d of
             (False, d') \<Rightarrow> Inr d'
           | (True, d') \<Rightarrow> probe_virt_queues max_virtqueues_nr ncpus d')"
  by pat_completeness auto
termination
  apply (relation "measure (\<lambda>(m, n, d). m - num_queues d)")
   apply simp
  apply (auto simp: probe_queue_def act_def Let_def split: if_splits)
  done

text \<open>\<open>virtio_driver::get_virt_queue\<close>.\<close>

definition get_virt_queue :: "nat \<Rightarrow> driver \<Rightarrow> 16 word option" where
  "get_virt_queue idx d = (if idx \<ge> num_queues d then None else queues d ! idx)"

text \<open>
  The constructor \<open>rng::rng\<close> up to the last status write: the base constructor,
  \<open>probe_virt_queues\<close>, \<open>add_dev_status(DRIVER_OK)\<close>.
\<close>

definition rng_ctor :: "nat \<Rightarrow> nat \<Rightarrow> driver \<Rightarrow> fault + driver" where
  "rng_ctor max_virtqueues_nr ncpus d0 =
     (case virtio_driver max_virtqueues_nr d0 of
        Inl f \<Rightarrow> Inl f
      | Inr d1 \<Rightarrow>
          (case probe_virt_queues max_virtqueues_nr ncpus d1 of
             Inl f \<Rightarrow> Inl f
           | Inr d2 \<Rightarrow> add_dev_status VIRTIO_CONFIG_S_DRIVER_OK d2))"

text \<open>The values written to the status register, in order, among a list of actions.\<close>

fun status_writes :: "action list \<Rightarrow> 8 word list" where
  "status_writes [] = []"
| "status_writes (Write_status v # as) = v # status_writes as"
| "status_writes (_ # as) = status_writes as"

text \<open>
  The enumeration as the specification describes it, to compare the loop with. For
  queue \<open>i\<close>: the size the host reports, the vector it reads back, the frame number of
  the ring, and the actions of a queue that is set up.
\<close>

definition queue_num_of :: "driver \<Rightarrow> nat \<Rightarrow> 16 word" where
  "queue_num_of d i = read_queue_num (d\<lparr>reg_queue_sel := of_nat i\<rparr>)"

definition queue_vector_of :: "driver \<Rightarrow> nat \<Rightarrow> 16 word" where
  "queue_vector_of d i = read_queue_vector (d\<lparr>reg_queue_sel := of_nat i\<rparr>)"

definition queue_pfn_of :: "driver \<Rightarrow> nat \<Rightarrow> 32 word" where
  "queue_pfn_of d i = ucast (drop_bit VIRTIO_PCI_QUEUE_ADDR_SHIFT (get_paddr d i))"

definition queue_setup :: "driver \<Rightarrow> nat \<Rightarrow> action list" where
  "queue_setup d i =
     [Write_queue_sel (of_nat i), Read_queue_num, New_vring i (queue_num_of d i)] @
     (if is_msix d then [Write_queue_vector (of_nat i), Read_queue_vector] else []) @
     [Write_queue_pfn (queue_pfn_of d i)]"

text \<open>Why the enumeration ends at index \<open>k\<close>, having started at \<open>n0\<close>, and what it
  still does for queue \<open>k\<close>.\<close>

datatype stop = Cap_reached | Enough_queues | Size_zero | Vector_rejected

fun stop_cond :: "nat \<Rightarrow> nat \<Rightarrow> driver \<Rightarrow> nat \<Rightarrow> nat \<Rightarrow> stop \<Rightarrow> bool" where
  "stop_cond m ncpus d n0 k Cap_reached = (k \<ge> m)"
| "stop_cond m ncpus d n0 k Enough_queues = (k > n0 \<and> k \<ge> 2 * ncpus)"
| "stop_cond m ncpus d n0 k Size_zero = (k < m \<and> queue_num_of d k = 0)"
| "stop_cond m ncpus d n0 k Vector_rejected =
     (k < m \<and> queue_num_of d k \<noteq> 0 \<and> is_msix d \<and> unat (queue_vector_of d k) \<noteq> k)"

fun stop_actions :: "driver \<Rightarrow> nat \<Rightarrow> stop \<Rightarrow> action list" where
  "stop_actions d k Cap_reached = []"
| "stop_actions d k Enough_queues = []"
| "stop_actions d k Size_zero = [Write_queue_sel (of_nat k), Read_queue_num]"
| "stop_actions d k Vector_rejected =
     [Write_queue_sel (of_nat k), Read_queue_num, New_vring k (queue_num_of d k),
      Write_queue_vector (of_nat k), Read_queue_vector]"

text \<open>
  The enumeration from \<open>d\<close> to \<open>d'\<close>, ended for reason \<open>r\<close>: the count does
  not go down; the actions are those of setting up the queues from the old count up
  to the new one, in order, then those of the stop; the reason holds at the new count;
  and each queue counted is below the cap, is the first of this enumeration or below
  \<open>2 * ncpus\<close>, has a non-zero size, got its own index read back as vector when
  MSI-X is on, and is recorded in \<open>_queues\<close> with its size.
\<close>

definition enumerated :: "nat \<Rightarrow> nat \<Rightarrow> driver \<Rightarrow> driver \<Rightarrow> stop \<Rightarrow> bool" where
  "enumerated m n d d' r \<longleftrightarrow>
     num_queues d \<le> num_queues d' \<and>
     trace d' = trace d @ concat (map (queue_setup d) [num_queues d..<num_queues d']) @
                stop_actions d (num_queues d') r \<and>
     stop_cond m n d (num_queues d) (num_queues d') r \<and>
     (\<forall>i \<in> set [num_queues d..<num_queues d'].
        i < m \<and> (i = num_queues d \<or> i < 2 * n) \<and> queue_num_of d i \<noteq> 0 \<and>
        (is_msix d \<longrightarrow> unat (queue_vector_of d i) = i) \<and>
        (i < length (queues d) \<longrightarrow> queues d' ! i = Some (queue_num_of d i)))"

text \<open>Two states of a driver bound to the same host: the specification-side
  functions above read nothing else.\<close>

definition same_host :: "driver \<Rightarrow> driver \<Rightarrow> bool" where
  "same_host d d' \<longleftrightarrow> is_msix d' = is_msix d \<and> host_queue_num d' = host_queue_num d \<and>
     host_queue_vector d' = host_queue_vector d \<and> vring_paddr d' = vring_paddr d"

section \<open>The vring, as the drivers use it\<close>

text \<open>
  Modelled from the spec: the class \<open>vring\<close> of \<open>drivers/virtio-vring.cc\<close>, which is
  not among the sources. The state follows section 3 of the specification, chain by
  chain: the number of free descriptors; the chains published on the available ring
  that the host has not completed, oldest first, each with its cookie and its number
  of descriptors; the used-ring entries between \<open>last_used_idx\<close> and the host's head,
  oldest first, each with cookie, number of descriptors and bytes written; the shadow
  index \<open>last_used_idx\<close>; the scatter-gather vector being staged (host-writable or
  not, and the length); the \<open>NO_INTERRUPT\<close> flag of the available ring; the
  event-index capability with the published \<open>used_event\<close>; and the count of kicks.
\<close>

record 'c vring =
  free_desc :: nat
  avail :: "('c \<times> nat) list"
  used :: "('c \<times> nat \<times> 32 word) list"
  last_used_idx :: "16 word"
  sg_vec :: "(bool \<times> 32 word) list"
  no_interrupt :: bool
  event_idx :: bool
  used_event :: "16 word"
  kicks :: nat

text \<open>Modelled from the spec: \<open>init_sg()\<close> resets the staging vector to empty.\<close>

definition init_sg :: "'c vring \<Rightarrow> 'c vring" where
  "init_sg q = q\<lparr>sg_vec := []\<rparr>"

text \<open>Modelled from the spec: \<open>add_out_sg\<close> and \<open>add_in_sg\<close> append an entry to the
  staging vector, marked host-readable or host-writable.\<close>

definition add_out_sg :: "32 word \<Rightarrow> 'c vring \<Rightarrow> 'c vring" where
  "add_out_sg len q = q\<lparr>sg_vec := sg_vec q @ [(False, len)]\<rparr>"

definition add_in_sg :: "32 word \<Rightarrow> 'c vring \<Rightarrow> 'c vring" where
  "add_in_sg len q = q\<lparr>sg_vec := sg_vec q @ [(True, len)]\<rparr>"

text \<open>Modelled from the spec: \<open>avail_ring_has_room(n)\<close> is true iff at least \<open>n\<close>
  free descriptors remain.\<close>

definition avail_ring_has_room :: "nat \<Rightarrow> 'c vring \<Rightarrow> bool" where
  "avail_ring_has_room n q \<longleftrightarrow> n \<le> free_desc q"

text \<open>Modelled from the spec: \<open>avail_ring_not_empty()\<close> is true iff the guest has room
  to publish at least one more chain.\<close>

definition avail_ring_not_empty :: "'c vring \<Rightarrow> bool" where
  "avail_ring_not_empty q \<longleftrightarrow> 0 < free_desc q"

text \<open>Modelled from the spec: \<open>used_ring_not_empty()\<close> is true iff \<open>last_used_idx\<close>
  differs from the head of the used ring, that is, iff there is an entry between
  the two.\<close>

definition used_ring_not_empty :: "'c vring \<Rightarrow> bool" where
  "used_ring_not_empty q \<longleftrightarrow> used q \<noteq> []"

text \<open>Modelled from the spec: \<open>used_ring_can_gc()\<close> is a synonym, used for pacing
  producers that await completions.\<close>

definition used_ring_can_gc :: "'c vring \<Rightarrow> bool" where
  "used_ring_can_gc q \<longleftrightarrow> used_ring_not_empty q"

text \<open>Modelled from the spec: \<open>add_buf(cookie)\<close> fails, changing nothing, if there are
  fewer free descriptors than staged entries; otherwise it takes one descriptor per
  entry, records the cookie, publishes the chain and resets the staging vector.\<close>

definition add_buf :: "'c \<Rightarrow> 'c vring \<Rightarrow> bool \<times> 'c vring" where
  "add_buf cookie q =
     (if \<not> avail_ring_has_room (length (sg_vec q)) q then (False, q)
      else (True, q\<lparr>free_desc := free_desc q - length (sg_vec q),
                     avail := avail q @ [(cookie, length (sg_vec q))],
                     sg_vec := []\<rparr>))"

text \<open>Modelled from the spec: \<open>get_buf_elem(&len)\<close> peeks the next completed chain and
  gives its cookie and the bytes written, or null if none is pending.\<close>

definition get_buf_elem :: "'c vring \<Rightarrow> ('c \<times> 32 word) option" where
  "get_buf_elem q = (case used q of [] \<Rightarrow> None | (cookie, n, len) # _ \<Rightarrow> Some (cookie, len))"

text \<open>Modelled from the spec: \<open>get_buf_finalize()\<close> commits the peek: the descriptors
  of the chain are free again and \<open>last_used_idx\<close> advances.\<close>

definition get_buf_finalize :: "'c vring \<Rightarrow> 'c vring" where
  "get_buf_finalize q =
     (case used q of
        [] \<Rightarrow> q
      | (cookie, n, len) # rest \<Rightarrow>
          q\<lparr>used := rest, free_desc := free_desc q + n, last_used_idx := last_used_idx q + 1\<rparr>)"

text \<open>Modelled from the spec: \<open>get_buf_gc()\<close> drains all completed chains in bulk and
  returns their count.\<close>

definition get_buf_gc :: "'c vring \<Rightarrow> nat \<times> 'c vring" where
  "get_buf_gc q =
     (length (used q),
      q\<lparr>used := [], free_desc := free_desc q + sum_list (map (\<lambda>(cookie, n, len). n) (used q)),
        last_used_idx := last_used_idx q + of_nat (length (used q))\<rparr>)"

text \<open>Modelled from the spec: \<open>enable_interrupts()\<close> and \<open>disable_interrupts()\<close> clear
  and set the \<open>NO_INTERRUPT\<close> flag of the available ring or, in event-index mode,
  publish the used index the guest expects next.\<close>

definition enable_interrupts :: "'c vring \<Rightarrow> 'c vring" where
  "enable_interrupts q =
     (if event_idx q then q\<lparr>used_event := last_used_idx q\<rparr> else q\<lparr>no_interrupt := False\<rparr>)"




subsection \<open>\<open>virtio_driver::wait_for_queue\<close> (drivers/virtio.cc)\<close>

text \<open>
  The \<open>pred\<close> argument is a pointer to a \<open>const\<close> member function of \<open>vring\<close> without
  arguments; the contract of the vring has three.
\<close>

datatype vring_pred = Avail_ring_not_empty | Used_ring_not_empty | Used_ring_can_gc

fun holds :: "vring_pred \<Rightarrow> 'c vring \<Rightarrow> bool" where
  "holds Avail_ring_not_empty q = avail_ring_not_empty q"
| "holds Used_ring_not_empty q = used_ring_not_empty q"
| "holds Used_ring_can_gc q = used_ring_can_gc q"



section \<open>Network device (the virtio-net part of drivers/virtio-rng.cc)\<close>

text \<open>\<open>net::pick_txq\<close>: the index returned, and the line printed when the index is not
  below \<open>_num_queues / 2\<close>.\<close>

definition pick_txq :: "32 word \<Rightarrow> 32 word \<Rightarrow> 32 word \<times> string list" where
  "pick_txq nr_queues cpu_id =
     (let idx = cpu_id
      in (idx, if idx \<ge> nr_queues div 2 then [''pick idx''] else []))"


subsection \<open>Receive checksum validation\<close>

text \<open>
  The fields of \<open>struct net_hdr\<close> and of an \<open>mbuf\<close> that the paths below read or
  write. \<open>mh_data\<close> is the memory \<open>mtod(m, uint8_t*)\<close> points to and \<open>mh_len\<close> the
  C \<open>int\<close> length of this fragment. A packet is its head mbuf together with the
  list of the mbufs reached through \<open>mh_next\<close>.
\<close>

record net_hdr =
  flags :: "8 word"
  gso_type :: "8 word"
  hdr_len :: "16 word"
  gso_size :: "16 word"
  csum_start :: "16 word"
  csum_offset :: "16 word"

record mbuf =
  mh_len :: int
  mh_data :: "8 word list"
  csum_flags :: "32 word"
  csum_data :: "32 word"

text \<open>Constants of the BSD headers the file includes: \<open>sizeof(struct ether_header)\<close>,
  \<open>sizeof(struct ip)\<close>, \<open>sizeof(struct udphdr)\<close>, the offsets of \<open>uh_sum\<close> and
  \<open>th_sum\<close>, the EtherTypes and the checksum flags of \<open>mbuf.h\<close>.\<close>

definition sizeof_ether_header :: int where "sizeof_ether_header = 14"
definition sizeof_ip :: int where "sizeof_ip = 20"
definition sizeof_udphdr :: int where "sizeof_udphdr = 8"
definition offsetof_uh_sum :: "16 word" where "offsetof_uh_sum = 6"
definition offsetof_th_sum :: "16 word" where "offsetof_th_sum = 16"
definition ETHERTYPE_VLAN :: "16 word" where "ETHERTYPE_VLAN = 0x8100"
definition ETHERTYPE_IP :: "16 word" where "ETHERTYPE_IP = 0x0800"
definition CSUM_DATA_VALID :: "32 word" where "CSUM_DATA_VALID = 0x0400"
definition CSUM_PSEUDO_HDR :: "32 word" where "CSUM_PSEUDO_HDR = 0x0800"

text \<open>\<open>ntohs\<close> of the 16-bit field stored at byte offset \<open>off\<close>: the first byte is
  the high one.\<close>

definition ntohs_at :: "8 word list \<Rightarrow> nat \<Rightarrow> 16 word" where
  "ntohs_at d off = push_bit 8 (ucast (d ! off)) OR ucast (d ! (off + 1))"

text \<open>The EtherType the function dispatches on: \<open>ether_type\<close> at offset 12, or
  \<open>evl_proto\<close> at offset 16 of a VLAN-tagged frame.\<close>

definition rx_eth_type :: "mbuf \<Rightarrow> 16 word" where
  "rx_eth_type m =
     (let eth_type = ntohs_at (mh_data m) 12
      in if eth_type = ETHERTYPE_VLAN then ntohs_at (mh_data m) 16 else eth_type)"

text \<open>\<open>udp->uh_sum\<close> with \<open>udp\<close> at \<open>csum_start\<close>: a comparison with 0, so the byte
  order does not matter.\<close>

definition rx_uh_sum :: "mbuf \<Rightarrow> net_hdr \<Rightarrow> 16 word" where
  "rx_uh_sum m hdr = ntohs_at (mh_data m) (unat (csum_start hdr) + unat offsetof_uh_sum)"

text \<open>\<open>net::bad_rx_csum\<close>: the result (\<open>True\<close> for a bad checksum) and the mbuf as
  the call leaves it.\<close>

definition bad_rx_csum :: "mbuf \<Rightarrow> net_hdr \<Rightarrow> bool \<times> mbuf" where
  "bad_rx_csum m hdr =
     (let csum_len = uint (csum_start hdr) + uint (csum_offset hdr)
      in if csum_len < sizeof_ether_header + sizeof_ip then (True, m)
         else if mh_len m < csum_len then (True, m)
         else if rx_eth_type m \<noteq> ETHERTYPE_IP then (True, m)
         else if csum_offset hdr = offsetof_uh_sum then
           (if mh_len m < uint (csum_start hdr) + sizeof_udphdr then (True, m)
            else if rx_uh_sum m hdr = 0 then (False, m)
            else (False, m\<lparr>csum_flags := csum_flags m OR (CSUM_DATA_VALID OR CSUM_PSEUDO_HDR),
                           csum_data := 0xFFFF\<rparr>))
         else if csum_offset hdr = offsetof_th_sum then
           (False, m\<lparr>csum_flags := csum_flags m OR (CSUM_DATA_VALID OR CSUM_PSEUDO_HDR),
                      csum_data := 0xFFFF\<rparr>)
         else (True, m))"

subsection \<open>Transmit\<close>

text \<open>
  A \<open>net_req\<close>, the cookie of a published packet: the header, \<open>num_buffers\<close> and
  the packet it owns (the head mbuf and the mbufs reached through \<open>mh_next\<close>). A
  \<open>txq\<close> is a vring with its counters, which are \<open>u64\<close>.
\<close>

record net_req =
  mhdr_hdr :: net_hdr
  num_buffers :: "16 word"
  um :: "mbuf \<times> mbuf list"

record txq_stats =
  tx_packets :: "64 word"
  tx_bytes :: "64 word"
  tx_drops :: "64 word"
  tx_err :: "64 word"
  tx_csum :: "64 word"
  tx_tso :: "64 word"

record txq =
  vqueue :: "net_req vring"
  stats :: txq_stats

text \<open>Constants of \<open>errno.h\<close> and of \<open>drivers/virtio-net.hh\<close>.\<close>

definition EINVAL :: int where "EINVAL = 22"
definition ENOBUFS :: int where "ENOBUFS = 105"
definition VIRTIO_NET_HDR_F_NEEDS_CSUM :: "8 word" where "VIRTIO_NET_HDR_F_NEEDS_CSUM = 1"

text \<open>\<open>net::tx_gc\<close>: the loop that takes completed requests one by one, then
  \<open>get_buf_gc\<close>.\<close>

function tx_gc_loop :: "'c vring \<Rightarrow> 'c vring" where
  "tx_gc_loop vq =
     (case get_buf_elem vq of
        None \<Rightarrow> vq
      | Some (req, len) \<Rightarrow> tx_gc_loop (get_buf_finalize vq))"
  by pat_completeness auto
termination
  apply (relation "measure (\<lambda>vq. length (used vq))")
   apply simp
  apply (auto simp: get_buf_elem_def get_buf_finalize_def split: list.splits)
  done

definition tx_gc :: "'c vring \<Rightarrow> 'c vring" where
  "tx_gc vq = snd (get_buf_gc (tx_gc_loop vq))"

text \<open>
  The part of \<open>net::tx_locked\<close> that stages the scatter-gather: the header, then
  every fragment of non-zero length. It gives the vring, \<open>tx_bytes\<close> and the
  increase of \<open>num_buffers\<close>.
\<close>

fun tx_frags :: "mbuf list \<Rightarrow> 'c vring \<times> 64 word \<times> 16 word \<Rightarrow> 'c vring \<times> 64 word \<times> 16 word" where
  "tx_frags [] acc = acc"
| "tx_frags (m # ms) (vq, bytes, nbufs) =
     (let frag_len = mh_len m
      in if frag_len \<noteq> 0
         then tx_frags ms (add_out_sg (word_of_int (mh_len m)) vq,
                           bytes + word_of_int frag_len, nbufs + 1)
         else tx_frags ms (vq, bytes, nbufs))"

definition tx_stage :: "32 word \<Rightarrow> mbuf \<times> mbuf list \<Rightarrow> 'c vring \<Rightarrow> 'c vring \<times> 64 word \<times> 16 word" where
  "tx_stage hdr_size m_head vq =
     tx_frags (fst m_head # snd m_head) (add_out_sg hdr_size (init_sg vq), 0, 0)"

text \<open>The \<open>switch (rc)\<close> after the label \<open>out\<close> of \<open>net::tx_locked\<close>.\<close>

definition tx_update_stats :: "int \<Rightarrow> 64 word \<Rightarrow> net_hdr \<Rightarrow> txq_stats \<Rightarrow> txq_stats" where
  "tx_update_stats rc bytes hdr st =
     (if rc = 0 then
        let st1 = st\<lparr>tx_bytes := tx_bytes st + bytes\<rparr>;
            st2 = st1\<lparr>tx_packets := tx_packets st1 + 1\<rparr>;
            st3 = (if flags hdr AND VIRTIO_NET_HDR_F_NEEDS_CSUM \<noteq> 0
                   then st2\<lparr>tx_csum := tx_csum st2 + 1\<rparr> else st2)
        in if gso_type hdr \<noteq> 0 then st3\<lparr>tx_tso := tx_tso st3 + 1\<rparr> else st3
      else if rc = ENOBUFS then st\<lparr>tx_drops := tx_drops st + 1\<rparr>
      else st\<lparr>tx_err := tx_err st + 1\<rparr>)"

text \<open>The end of \<open>net::tx_locked\<close>, from \<open>add_buf\<close> on.\<close>

definition tx_publish :: "net_req \<Rightarrow> 64 word \<Rightarrow> net_req vring \<Rightarrow> txq \<Rightarrow> int \<times> txq" where
  "tx_publish req bytes vq txq =
     (case add_buf req vq of
        (False, vq') \<Rightarrow>
          (ENOBUFS,
           txq\<lparr>vqueue := vq',
               stats := tx_update_stats ENOBUFS bytes (mhdr_hdr req) (stats txq)\<rparr>)
      | (True, vq') \<Rightarrow>
          (0, txq\<lparr>vqueue := vq',
                  stats := tx_update_stats 0 bytes (mhdr_hdr req) (stats txq)\<rparr>))"

text \<open>
  \<open>net::tx_locked\<close> on the queue \<open>_txq[idx]\<close>. \<open>hdr_size\<close> is \<open>_hdr_size\<close> and
  \<open>req0\<close> the request as \<open>new net_req\<close> makes it. \<open>offload\<close> is what
  \<open>tx_offload(m_head, &req->mhdr.hdr)\<close> gives for this packet: nothing when a header
  cannot be pulled up, or the packet and the header filled in; it is consulted only
  when the packet asks for an offload.
\<close>

definition tx_locked ::
  "32 word \<Rightarrow> net_req \<Rightarrow> ((mbuf \<times> mbuf list) \<times> net_hdr) option \<Rightarrow> mbuf \<times> mbuf list \<Rightarrow> txq
     \<Rightarrow> int \<times> txq" where
  "tx_locked hdr_size req0 offload m_head txq =
     (let vq = vqueue txq;
          req = req0\<lparr>um := m_head\<rparr>
      in case (if csum_flags (fst m_head) \<noteq> 0 then offload else Some (m_head, mhdr_hdr req)) of
           None \<Rightarrow>
             (EINVAL, txq\<lparr>stats := tx_update_stats EINVAL 0 (mhdr_hdr req) (stats txq)\<rparr>)
         | Some (m_head, hdr) \<Rightarrow>
             (case tx_stage hdr_size m_head vq of
                (vq, bytes, nbufs) \<Rightarrow>
                  let req = req\<lparr>mhdr_hdr := hdr, num_buffers := num_buffers req + nbufs\<rparr>
                  in if \<not> avail_ring_has_room (length (sg_vec vq)) vq then
                       (if used_ring_not_empty vq
                        then tx_publish req bytes (tx_gc vq) txq
                        else (ENOBUFS,
                              txq\<lparr>vqueue := vq,
                                  stats := tx_update_stats ENOBUFS bytes hdr (stats txq)\<rparr>))
                     else tx_publish req bytes vq txq))"

section \<open>Theorems\<close>

lemma wait_until_holds: "pred s \<Longrightarrow> wait_until pred sched s = Some s"
  by (cases sched) simp_all

lemma wait_until_Some: "wait_until pred sched s = Some s1 \<Longrightarrow> pred s1"
  by (induction sched arbitrary: s) (auto split: if_splits)

lemma consumer_eq:
  "consumer sz s =
     (if entropy s = [] then s
      else s\<lparr>entropy := drop (min (length (entropy s)) sz) (entropy s),
             producer_wakes := producer_wakes s + 1\<rparr>)"
  by (cases "entropy s") (simp_all add: consumer_def get_random_bytes_def Let_def)

lemma consumer_entropy: "entropy (consumer sz s) = drop (min (length (entropy s)) sz) (entropy s)"
  by (simp add: consumer_eq)

lemma consumer_length: "length (entropy (consumer sz s)) \<le> length (entropy s)"
  by (simp add: consumer_entropy)

lemma consumer_sg_log: "sg_log (consumer sz s) = sg_log s"
  by (simp add: consumer_eq)

lemma consumer_sg_update: "consumer sz (s\<lparr>sg_log := l\<rparr>) = (consumer sz s)\<lparr>sg_log := l\<rparr>"
  by (simp add: consumer_eq)

lemma consumers_sg_update:
  "fold consumer szs (s\<lparr>sg_log := l\<rparr>) = (fold consumer szs s)\<lparr>sg_log := l\<rparr>"
  by (induction szs arbitrary: s) (simp_all add: consumer_sg_update)

lemma consumers_length: "length (entropy (fold consumer szs s)) \<le> length (entropy s)"
proof (induction szs arbitrary: s)
  case Nil
  show ?case by simp
next
  case (Cons sz szs)
  have "length (entropy (fold consumer szs (consumer sz s))) \<le> length (entropy (consumer sz s))"
    by (rule Cons.IH)
  also have "\<dots> \<le> length (entropy s)" by (rule consumer_length)
  finally show ?case by simp
qed

lemma consumers_sg_log: "sg_log (fold consumer szs s) = sg_log s"
  by (induction szs arbitrary: s) (simp_all add: consumer_sg_log)

lemma refill_Inr:
  assumes r: "refill P during reply s = Inr s'" and lt: "length (entropy s) < P"
  shows "\<exists>len written. reply = Some (len, written) \<and>
           sg_log s' = (P - length (entropy s)) # sg_log s \<and>
           length (entropy s') = length (entropy (fold consumer during s)) + unat len \<and>
           consumer_wakes s' = consumer_wakes (fold consumer during s) \<and>
           (unat len \<le> P - length (entropy s) \<longrightarrow> length (entropy s') \<le> P)"
proof -
  from r obtain len written where rep: "reply = Some (len, written)"
    by (cases reply) (auto simp: refill_def Let_def)
  let ?rem = "P - length (entropy s)"
  let ?s2 = "fold consumer during (s\<lparr>sg_log := ?rem # sg_log s\<rparr>)"
  from r rep lt
  have s': "s' = ?s2\<lparr>entropy := entropy ?s2 @ take (unat len) (written @ replicate (unat len) 0)\<rparr>"
    by (auto simp: refill_def Let_def)
  have e2: "length (entropy ?s2) \<le> length (entropy s)"
    using consumers_length [of during "s\<lparr>sg_log := ?rem # sg_log s\<rparr>"] by simp
  have same: "entropy ?s2 = entropy (fold consumer during s)"
    by (simp add: consumers_sg_update)
  have sg: "sg_log ?s2 = ?rem # sg_log s"
    by (simp add: consumers_sg_update)
  have cw: "consumer_wakes ?s2 = consumer_wakes (fold consumer during s)"
    by (simp add: consumers_sg_update)
  have len: "length (take (unat len) (written @ replicate (unat len) 0)) = unat len"
    by simp
  show ?thesis
    using rep s' e2 same sg cw len lt by auto
qed

lemma worker_iteration_Inr:
  assumes w: "worker_iteration P waiting during reply s = Inr s'"
  shows "\<exists>s1 len written.
           wait_until (\<lambda>s. length (entropy s) < P) (map consumer waiting) s = Some s1 \<and>
           length (entropy s1) < P \<and>
           reply = Some (len, written) \<and>
           sg_log s' = (P - length (entropy s1)) # sg_log s1 \<and>
           length (entropy s') = length (entropy (fold consumer during s1)) + unat len \<and>
           consumer_wakes s' = consumer_wakes (fold consumer during s1) + 1 \<and>
           (unat len \<le> P - length (entropy s1) \<longrightarrow> length (entropy s') \<le> P)"
proof -
  from w obtain s1 where s1: "wait_until (\<lambda>s. length (entropy s) < P) (map consumer waiting) s = Some s1"
    by (auto simp: worker_iteration_def split: option.splits)
  then have lt: "length (entropy s1) < P" by (rule wait_until_Some)
  from w s1 obtain s2 where s2: "refill P during reply s1 = Inr s2"
    and s': "s' = s2\<lparr>consumer_wakes := consumer_wakes s2 + 1\<rparr>"
    by (auto simp: worker_iteration_def split: sum.splits)
  from refill_Inr [OF s2 lt] obtain len written where
    r: "reply = Some (len, written)"
       "sg_log s2 = (P - length (entropy s1)) # sg_log s1"
       "length (entropy s2) = length (entropy (fold consumer during s1)) + unat len"
       "consumer_wakes s2 = consumer_wakes (fold consumer during s1)"
       "unat len \<le> P - length (entropy s1) \<longrightarrow> length (entropy s2) \<le> P"
    by blast
  show ?thesis using s1 lt r s' by simp
qed

lemma worker_iteration_returns:
  assumes "length (entropy s) < P"
  shows "\<exists>s'. worker_iteration P waiting during (Some (len, written)) s = Inr s'"
proof -
  from assms have "wait_until (\<lambda>s. length (entropy s) < P) (map consumer waiting) s = Some s"
    by (rule wait_until_holds)
  then show ?thesis by (simp add: worker_iteration_def refill_def Let_def)
qed

lemma rng_step_bound:
  assumes inv: "length (entropy s) \<le> P" and b: "reply_in_bounds P e s"
    and st: "rng_step P e s = Inr s'"
  shows "length (entropy s') \<le> P"
proof (cases e)
  case (Get sz)
  with inv st consumer_length [of sz s] show ?thesis by auto
next
  case (Produce waiting during reply)
  with st have w: "worker_iteration P waiting during reply s = Inr s'" by simp
  from worker_iteration_Inr [OF w] obtain s1 len written where
    f: "wait_until (\<lambda>s. length (entropy s) < P) (map consumer waiting) s = Some s1"
       "reply = Some (len, written)"
       "unat len \<le> P - length (entropy s1) \<longrightarrow> length (entropy s') \<le> P"
    by blast
  from b Produce f(1,2) have "unat len \<le> P - length (entropy s1)" by simp
  with f(3) show ?thesis by simp
qed

lemma rng_run_bound:
  "length (entropy s) \<le> P \<Longrightarrow> replies_in_bounds P evs s \<Longrightarrow> rng_run P evs s = Inr s' \<Longrightarrow>
     length (entropy s') \<le> P"
proof (induction evs arbitrary: s)
  case Nil
  then show ?case by simp
next
  case (Cons e evs)
  from Cons.prems(3) obtain s1 where s1: "rng_step P e s = Inr s1" and r: "rng_run P evs s1 = Inr s'"
    by (auto split: sum.splits)
  from Cons.prems(2) s1 have b: "reply_in_bounds P e s" and bs: "replies_in_bounds P evs s1"
    by simp_all
  from Cons.prems(1) b s1 have "length (entropy s1) \<le> P" by (rule rng_step_bound)
  then show ?case using bs r by (rule Cons.IH)
qed





lemma enable_interrupts_holds: "holds pred (enable_interrupts q) = holds pred q"
  by (cases pred) (simp_all add: enable_interrupts_def avail_ring_not_empty_def
      used_ring_not_empty_def used_ring_can_gc_def)








declare tx_gc_loop.simps [simp del]

lemma tx_gc_loop_eq:
  "tx_gc_loop vq = vq\<lparr>used := [], free_desc := free_desc vq + sum_list (map (\<lambda>(c, n, l). n) (used vq)),
      last_used_idx := last_used_idx vq + of_nat (length (used vq))\<rparr>"
proof (induction "used vq" arbitrary: vq)
  case Nil
  then have "used vq = []" by simp
  then show ?case by (simp add: tx_gc_loop.simps [of vq] get_buf_elem_def)
next
  case (Cons u us)
  obtain c n l where u: "u = (c, n, l)" by (cases u)
  with Cons.hyps(2) have uv: "used vq = (c, n, l) # us" by simp
  then have fin: "get_buf_finalize vq =
      vq\<lparr>used := us, free_desc := free_desc vq + n, last_used_idx := last_used_idx vq + 1\<rparr>"
    by (simp add: get_buf_finalize_def)
  then have "us = used (get_buf_finalize vq)" by simp
  from Cons.hyps(1) [OF this]
  have "tx_gc_loop (get_buf_finalize vq) =
      (get_buf_finalize vq)\<lparr>used := [],
        free_desc := free_desc (get_buf_finalize vq) + sum_list (map (\<lambda>(c, n, l). n) (used (get_buf_finalize vq))),
        last_used_idx := last_used_idx (get_buf_finalize vq) + of_nat (length (used (get_buf_finalize vq)))\<rparr>" .
  moreover have "tx_gc_loop vq = tx_gc_loop (get_buf_finalize vq)"
    using uv by (simp add: tx_gc_loop.simps [of vq] get_buf_elem_def)
  ultimately show ?case
    using uv fin by (simp add: add.assoc add.commute)
qed

lemma tx_gc_eq:
  "tx_gc vq = vq\<lparr>used := [], free_desc := free_desc vq + sum_list (map (\<lambda>(c, n, l). n) (used vq)),
      last_used_idx := last_used_idx vq + of_nat (length (used vq))\<rparr>"
  by (simp add: tx_gc_def get_buf_gc_def tx_gc_loop_eq)


lemma tx_frags_frame:
  "tx_frags ms (vq, b, n) = (vq', b', n') \<Longrightarrow>
     free_desc vq' = free_desc vq \<and> avail vq' = avail vq \<and> used vq' = used vq \<and>
     last_used_idx vq' = last_used_idx vq \<and> length (sg_vec vq') \<ge> length (sg_vec vq)"
proof (induction ms arbitrary: vq b n)
  case Nil
  then show ?case by simp
next
  case (Cons m ms)
  show ?case
  proof (cases "mh_len m = 0")
    case True
    with Cons.prems have "tx_frags ms (vq, b, n) = (vq', b', n')" by simp
    from Cons.IH [OF this] show ?thesis .
  next
    case False
    with Cons.prems have "tx_frags ms (add_out_sg (word_of_int (mh_len m)) vq,
        b + word_of_int (mh_len m), n + 1) = (vq', b', n')" by (simp add: Let_def)
    from Cons.IH [OF this] show ?thesis by (simp add: add_out_sg_def)
  qed
qed

lemma tx_stage_frame:
  assumes "tx_stage hdr_size m vq0 = (vq, bytes, nbufs)"
  shows "free_desc vq = free_desc vq0" "avail vq = avail vq0" "used vq = used vq0"
    "last_used_idx vq = last_used_idx vq0" "length (sg_vec vq) \<ge> 1"
  using tx_frags_frame [OF assms [unfolded tx_stage_def]]
  by (simp_all add: add_out_sg_def init_sg_def)

declare probe_virt_queues.simps [simp del]

subsection \<open>Queue enumeration\<close>

lemma status_writes_append: "status_writes (xs @ ys) = status_writes xs @ status_writes ys"
  by (induction xs rule: status_writes.induct) simp_all

text \<open>What one iteration leaves alone.\<close>

lemma probe_queue_frame:
  assumes "probe_queue n d = (b, d')"
  shows "reg_status d' = reg_status d" "bar1 d' = bar1 d" "is_msix d' = is_msix d"
    "host_queue_num d' = host_queue_num d" "host_queue_vector d' = host_queue_vector d"
    "vring_paddr d' = vring_paddr d" "length (queues d') = length (queues d)"
  using assms by (auto simp: probe_queue_def act_def Let_def split: if_splits)

lemma probe_queue_True:
  assumes "probe_queue n d = (True, d')"
  shows "trace d' = trace d @ queue_setup d (num_queues d)"
    and "num_queues d' = num_queues d + 1"
    and "queue_num_of d (num_queues d) \<noteq> 0"
    and "is_msix d \<longrightarrow> unat (queue_vector_of d (num_queues d)) = num_queues d"
    and "num_queues d + 1 < 2 * n"
    and "num_queues d < length (queues d) \<longrightarrow> queues d' ! num_queues d = Some (queue_num_of d (num_queues d))"
  using assms
  by (auto simp: probe_queue_def act_def Let_def queue_setup_def queue_num_of_def
      queue_vector_of_def queue_pfn_of_def read_queue_num_def read_queue_vector_def get_paddr_def
      split: if_splits)


lemma probe_queue_False:
  assumes "probe_queue n d = (False, d')"
  shows "(queue_num_of d (num_queues d) = 0 \<and> num_queues d' = num_queues d \<and>
            trace d' = trace d @ stop_actions d (num_queues d) Size_zero) \<or>
         (queue_num_of d (num_queues d) \<noteq> 0 \<and> is_msix d \<and>
            unat (queue_vector_of d (num_queues d)) \<noteq> num_queues d \<and>
            num_queues d' = num_queues d \<and>
            trace d' = trace d @ stop_actions d (num_queues d) Vector_rejected) \<or>
         (queue_num_of d (num_queues d) \<noteq> 0 \<and>
            (is_msix d \<longrightarrow> unat (queue_vector_of d (num_queues d)) = num_queues d) \<and>
            num_queues d' = num_queues d + 1 \<and> 2 * n \<le> num_queues d + 1 \<and>
            (num_queues d < length (queues d) \<longrightarrow>
               queues d' ! num_queues d = Some (queue_num_of d (num_queues d))) \<and>
            trace d' = trace d @ queue_setup d (num_queues d))"
  using assms
  by (auto simp: probe_queue_def act_def Let_def queue_setup_def queue_num_of_def
      queue_vector_of_def queue_pfn_of_def read_queue_num_def read_queue_vector_def get_paddr_def
      split: if_splits)

lemma probe_queue_queues:
  assumes "probe_queue n d = (b, d')" and "i \<noteq> num_queues d"
  shows "queues d' ! i = queues d ! i"
  using assms by (auto simp: probe_queue_def act_def Let_def split: if_splits)

lemma same_host_eqs:
  assumes "same_host d d'"
  shows "queue_num_of d' = queue_num_of d" "queue_vector_of d' = queue_vector_of d"
    "queue_setup d' = queue_setup d" "stop_actions d' = stop_actions d"
    "stop_cond m n d' = stop_cond m n d"
proof -
  show 1: "queue_num_of d' = queue_num_of d"
    using assms by (auto simp: same_host_def queue_num_of_def read_queue_num_def fun_eq_iff Let_def)
  show 2: "queue_vector_of d' = queue_vector_of d"
    using assms by (auto simp: same_host_def queue_vector_of_def read_queue_vector_def fun_eq_iff Let_def)
  have 3: "queue_pfn_of d' = queue_pfn_of d"
    using assms by (auto simp: same_host_def queue_pfn_of_def get_paddr_def fun_eq_iff)
  show "queue_setup d' = queue_setup d"
    using assms 1 3 by (auto simp: same_host_def queue_setup_def fun_eq_iff)
  show "stop_actions d' = stop_actions d"
  proof (intro ext)
    fix k r show "stop_actions d' k r = stop_actions d k r"
      using 1 by (cases r) simp_all
  qed
  show "stop_cond m n d' = stop_cond m n d"
  proof (intro ext)
    fix n0 k r show "stop_cond m n d' n0 k r = stop_cond m n d n0 k r"
      using 1 2 assms by (cases r) (simp_all add: same_host_def)
  qed
qed

lemma probe_queue_same_host: "probe_queue n d = (b, d') \<Longrightarrow> same_host d d'"
  by (simp add: same_host_def probe_queue_frame)

lemma probe_virt_queues_queues:
  "probe_virt_queues m n d = Inr d' \<Longrightarrow> i < num_queues d \<Longrightarrow> queues d' ! i = queues d ! i"
proof (induction m n d rule: probe_virt_queues.induct)
  case (1 m n d)
  show ?case
  proof (cases "m \<le> num_queues d")
    case True
    with "1.prems" show ?thesis by (simp add: probe_virt_queues.simps [of m n d])
  next
    case False
    with "1.prems" have b: "bar1 d"
      by (auto simp: probe_virt_queues.simps [of m n d] split: if_splits)
    obtain again d1 where pq: "probe_queue n d = (again, d1)" by (cases "probe_queue n d")
    from "1.prems"(2) have ne: "i \<noteq> num_queues d" by simp
    show ?thesis
    proof (cases again)
      case False
      with pq \<open>\<not> m \<le> num_queues d\<close> b "1.prems" have "d' = d1"
        by (simp add: probe_virt_queues.simps [of m n d])
      with probe_queue_queues [OF pq ne] show ?thesis by simp
    next
      case True
      with pq \<open>\<not> m \<le> num_queues d\<close> b "1.prems" have rec: "probe_virt_queues m n d1 = Inr d'"
        by (simp add: probe_virt_queues.simps [of m n d])
      from True pq have pq': "probe_queue n d = (True, d1)" by simp
      from "1.prems"(2) have "i < num_queues d1" by (simp add: probe_queue_True(2) [OF pq'])
      with "1.IH" [OF \<open>\<not> m \<le> num_queues d\<close> _ pq' [symmetric] _ rec] b
      have "queues d' ! i = queues d1 ! i" by simp
      with probe_queue_queues [OF pq ne] show ?thesis by simp
    qed
  qed
qed

lemma probe_virt_queues_enumerated:
  "probe_virt_queues m n d = Inr d' \<Longrightarrow> \<exists>r. enumerated m n d d' r"
proof (induction m n d rule: probe_virt_queues.induct)
  case (1 m n d)
  show ?case
  proof (cases "m \<le> num_queues d")
    case True
    with "1.prems" have "d' = d" by (simp add: probe_virt_queues.simps [of m n d])
    with True have "enumerated m n d d' Cap_reached" by (auto simp: enumerated_def)
    then show ?thesis ..
  next
    case False
    with "1.prems" have b: "bar1 d"
      by (auto simp: probe_virt_queues.simps [of m n d] split: if_splits)
    obtain again d1 where pq: "probe_queue n d = (again, d1)" by (cases "probe_queue n d")
    show ?thesis
    proof (cases again)
      case False
      with pq \<open>\<not> m \<le> num_queues d\<close> b "1.prems" have d': "d' = d1"
        by (simp add: probe_virt_queues.simps [of m n d])
      from pq False have pqF: "probe_queue n d = (False, d1)" by simp
      from probe_queue_False [OF pqF]
      consider (z) "queue_num_of d (num_queues d) = 0" "num_queues d1 = num_queues d"
            "trace d1 = trace d @ stop_actions d (num_queues d) Size_zero"
        | (v) "queue_num_of d (num_queues d) \<noteq> 0" "is_msix d"
            "unat (queue_vector_of d (num_queues d)) \<noteq> num_queues d"
            "num_queues d1 = num_queues d"
            "trace d1 = trace d @ stop_actions d (num_queues d) Vector_rejected"
        | (e) "queue_num_of d (num_queues d) \<noteq> 0"
            "is_msix d \<longrightarrow> unat (queue_vector_of d (num_queues d)) = num_queues d"
            "num_queues d1 = num_queues d + 1" "2 * n \<le> num_queues d + 1"
            "num_queues d < length (queues d) \<longrightarrow>
               queues d1 ! num_queues d = Some (queue_num_of d (num_queues d))"
            "trace d1 = trace d @ queue_setup d (num_queues d)"
        by blast
      then show ?thesis
      proof cases
        case z
        with \<open>\<not> m \<le> num_queues d\<close> d' have "enumerated m n d d' Size_zero"
          by (auto simp: enumerated_def)
        then show ?thesis ..
      next
        case v
        with \<open>\<not> m \<le> num_queues d\<close> d' have "enumerated m n d d' Vector_rejected"
          by (auto simp: enumerated_def)
        then show ?thesis ..
      next
        case e
        with \<open>\<not> m \<le> num_queues d\<close> d' have "enumerated m n d d' Enough_queues"
          by (auto simp: enumerated_def less_Suc_eq)
        then show ?thesis ..
      qed
    next
      case True
      with pq \<open>\<not> m \<le> num_queues d\<close> b "1.prems" have rec: "probe_virt_queues m n d1 = Inr d'"
        by (simp add: probe_virt_queues.simps [of m n d])
      from True pq have pq': "probe_queue n d = (True, d1)" by simp
      from "1.IH" [OF \<open>\<not> m \<le> num_queues d\<close> _ pq' [symmetric] _ rec] b
      obtain r where r: "enumerated m n d1 d' r" by auto
      note t = probe_queue_True [OF pq']
      note h = same_host_eqs [OF probe_queue_same_host [OF pq']]
      have len: "length (queues d1) = length (queues d)"
        using pq' by (rule probe_queue_frame)
      from r have le: "num_queues d + 1 \<le> num_queues d'"
        by (simp add: enumerated_def t(2))
      then have upt: "[num_queues d..<num_queues d'] = num_queues d # [num_queues d + 1..<num_queues d']"
        by (simp add: upt_conv_Cons)
      have tr: "trace d' = trace d @ concat (map (queue_setup d) [num_queues d..<num_queues d']) @
                stop_actions d (num_queues d') r"
        using r by (simp add: enumerated_def t(1,2) h upt)
      have sc: "stop_cond m n d (num_queues d) (num_queues d') r"
        using r le \<open>\<not> m \<le> num_queues d\<close> by (cases r) (auto simp: enumerated_def t(2) h)
      have each: "i < m \<and> (i = num_queues d \<or> i < 2 * n) \<and> queue_num_of d i \<noteq> 0 \<and>
          (is_msix d \<longrightarrow> unat (queue_vector_of d i) = i) \<and>
          (i < length (queues d) \<longrightarrow> queues d' ! i = Some (queue_num_of d i))"
        if i: "num_queues d \<le> i" "i < num_queues d'" for i
      proof (cases "i = num_queues d")
        case False
        with i have "i \<in> set [num_queues d1..<num_queues d']" by (simp add: t(2))
        with r have "i < m \<and> (i = num_queues d1 \<or> i < 2 * n) \<and> queue_num_of d1 i \<noteq> 0 \<and>
            (is_msix d1 \<longrightarrow> unat (queue_vector_of d1 i) = i) \<and>
            (i < length (queues d1) \<longrightarrow> queues d' ! i = Some (queue_num_of d1 i))"
          unfolding enumerated_def by blast
        then show ?thesis
          using probe_queue_frame(3) [OF pq'] t(5) by (auto simp: h len t(2))
      next
        case True
        have keep: "queues d' ! num_queues d = queues d1 ! num_queues d"
          using probe_virt_queues_queues [OF rec, of "num_queues d"] t(2) by simp
        show ?thesis
          using True t(3,4,6) \<open>\<not> m \<le> num_queues d\<close> keep by auto
      qed
      have "enumerated m n d d' r"
        unfolding enumerated_def using le tr sc each by auto
      then show ?thesis ..
    qed
  qed
qed

lemma probe_queue_trace:
  "probe_queue n d = (b, d') \<Longrightarrow> \<exists>qs. trace d' = trace d @ qs \<and> status_writes qs = []"
  by (auto simp: probe_queue_def act_def Let_def split: if_splits)

lemma probe_virt_queues_frame:
  "probe_virt_queues m n d = Inr d' \<Longrightarrow>
     reg_status d' = reg_status d \<and> bar1 d' = bar1 d \<and>
     (\<exists>qs. trace d' = trace d @ qs \<and> status_writes qs = [])"
proof (induction m n d rule: probe_virt_queues.induct)
  case (1 m n d)
  show ?case
  proof (cases "m \<le> num_queues d")
    case True
    with "1.prems" show ?thesis by (simp add: probe_virt_queues.simps [of m n d])
  next
    case False
    with "1.prems" have b: "bar1 d"
      by (auto simp: probe_virt_queues.simps [of m n d] split: if_splits)
    obtain again d1 where pq: "probe_queue n d = (again, d1)" by (cases "probe_queue n d")
    from probe_queue_trace [OF pq] obtain qs where qs: "trace d1 = trace d @ qs" "status_writes qs = []"
      by blast
    note f = probe_queue_frame(1,2) [OF pq]
    show ?thesis
    proof (cases again)
      case False
      with pq \<open>\<not> m \<le> num_queues d\<close> b "1.prems" have "d' = d1"
        by (simp add: probe_virt_queues.simps [of m n d])
      with qs f show ?thesis by simp
    next
      case True
      with pq \<open>\<not> m \<le> num_queues d\<close> b "1.prems" have rec: "probe_virt_queues m n d1 = Inr d'"
        by (simp add: probe_virt_queues.simps [of m n d])
      from True pq have pq': "probe_queue n d = (True, d1)" by simp
      from "1.IH" [OF \<open>\<not> m \<le> num_queues d\<close> _ pq' [symmetric] _ rec] b
      obtain qs' where "reg_status d' = reg_status d1" "bar1 d' = bar1 d1"
        "trace d' = trace d1 @ qs'" "status_writes qs' = []" by auto
      with qs f have "reg_status d' = reg_status d \<and> bar1 d' = bar1 d \<and>
          trace d' = trace d @ (qs @ qs') \<and> status_writes (qs @ qs') = []"
        by (simp add: status_writes_append)
      then show ?thesis by blast
    qed
  qed
qed

lemma probe_virt_queues_returns:
  "bar1 d \<Longrightarrow> \<exists>d'. probe_virt_queues m n d = Inr d'"
proof (induction m n d rule: probe_virt_queues.induct)
  case (1 m n d)
  show ?case
  proof (cases "m \<le> num_queues d")
    case True
    then show ?thesis by (simp add: probe_virt_queues.simps [of m n d])
  next
    case False
    obtain again d1 where pq: "probe_queue n d = (again, d1)" by (cases "probe_queue n d")
    show ?thesis
    proof (cases again)
      case False
      with pq \<open>\<not> m \<le> num_queues d\<close> "1.prems" show ?thesis
        by (simp add: probe_virt_queues.simps [of m n d])
    next
      case True
      from True pq have pq': "probe_queue n d = (True, d1)" by simp
      have "bar1 d1" using probe_queue_frame(2) [OF pq] "1.prems" by simp
      from "1.IH" [OF \<open>\<not> m \<le> num_queues d\<close> _ pq' [symmetric] _ this] "1.prems"
      obtain d' where "probe_virt_queues m n d1 = Inr d'" by auto
      with pq' \<open>\<not> m \<le> num_queues d\<close> "1.prems" show ?thesis
        by (simp add: probe_virt_queues.simps [of m n d])
    qed
  qed
qed

lemma add_dev_status_Inr:
  "add_dev_status v d = Inr d' \<Longrightarrow>
     d' = act (Write_status (reg_status d OR v)) (d\<lparr>reg_status := reg_status d OR v\<rparr>)"
  by (auto simp: add_dev_status_def get_dev_status_def set_dev_status_def split: if_splits)

lemma virtio_driver_Inr:
  assumes "virtio_driver m d0 = Inr d1"
  shows "trace d1 = trace d0 @ [Set_bus_master, Msix_enable, Write_status 0,
            Write_status (VIRTIO_CONFIG_S_ACKNOWLEDGE OR VIRTIO_CONFIG_S_DRIVER)]"
    and "reg_status d1 = VIRTIO_CONFIG_S_ACKNOWLEDGE OR VIRTIO_CONFIG_S_DRIVER"
    and "bar1 d1" and "num_queues d1 = 0" and "queues d1 = replicate m None"
  using assms
  by (auto simp: virtio_driver_def Let_def reset_host_side_def set_dev_status_def
      add_dev_status_def get_dev_status_def act_def parse_pci_config_def split: if_splits)

subsection \<open>Consumer side of the entropy pool\<close>

text \<open>
  Claim C2. \<open>get_random_bytes\<close> stays blocked as long as the pool is empty and
  goes on as soon as it is not. With \<open>s1\<close> the state in which the wait ends, it returns
  \<open>min |pool| requested\<close>, the buffer holds exactly that many bytes taken from the front
  of the pool (the rest of the buffer is untouched), those bytes and no others have
  left the pool, and \<open>_producer\<close> has been woken once. A request larger than the pool
  succeeds with the whole pool: a partial read.
\<close>

theorem get_random_bytes_spec:
  "(wait_until (\<lambda>s. length (entropy s) > 0) sched s = None \<longrightarrow>
      get_random_bytes sched buf sz s = None) \<and>
   (length (entropy s) > 0 \<longrightarrow> wait_until (\<lambda>s. length (entropy s) > 0) sched s = Some s) \<and>
   (\<forall>s1. wait_until (\<lambda>s. length (entropy s) > 0) sched s = Some s1 \<longrightarrow>
      length (entropy s1) > 0 \<and>
      (\<exists>buf' s'. get_random_bytes sched buf sz s = Some (min (length (entropy s1)) sz, buf', s') \<and>
         (\<forall>i. buf' i = (if i < min (length (entropy s1)) sz then entropy s1 ! i else buf i)) \<and>
         entropy s' = drop (min (length (entropy s1)) sz) (entropy s1) \<and>
         map buf' [0..<min (length (entropy s1)) sz] @ entropy s' = entropy s1 \<and>
         producer_wakes s' = producer_wakes s1 + 1 \<and>
         consumer_wakes s' = consumer_wakes s1 \<and>
         sg_log s' = sg_log s1 \<and>
         (length (entropy s1) < sz \<longrightarrow>
            min (length (entropy s1)) sz = length (entropy s1) \<and> entropy s' = [])))"
proof (intro conjI allI impI)
  assume "wait_until (\<lambda>s. length (entropy s) > 0) sched s = None"
  then show "get_random_bytes sched buf sz s = None"
    by (simp add: get_random_bytes_def)
next
  assume "length (entropy s) > 0"
  then show "wait_until (\<lambda>s. length (entropy s) > 0) sched s = Some s"
    by (rule wait_until_holds)
next
  fix s1
  assume w: "wait_until (\<lambda>s. length (entropy s) > 0) sched s = Some s1"
  then show "length (entropy s1) > 0"
    by (rule wait_until_Some)
  let ?n = "min (length (entropy s1)) sz"
  have m: "map (copy_n (entropy s1) ?n buf) [0..<?n] = take ?n (entropy s1)"
    by (rule nth_equalityI) (simp_all add: copy_n_def)
  show "\<exists>buf' s'. get_random_bytes sched buf sz s = Some (?n, buf', s') \<and>
         (\<forall>i. buf' i = (if i < ?n then entropy s1 ! i else buf i)) \<and>
         entropy s' = drop ?n (entropy s1) \<and>
         map buf' [0..<?n] @ entropy s' = entropy s1 \<and>
         producer_wakes s' = producer_wakes s1 + 1 \<and>
         consumer_wakes s' = consumer_wakes s1 \<and>
         sg_log s' = sg_log s1 \<and>
         (length (entropy s1) < sz \<longrightarrow> ?n = length (entropy s1) \<and> entropy s' = [])"
    using w m by (simp add: get_random_bytes_def Let_def copy_n_def)
qed

theorem get_random_bytes_spec_witness:
  "wait_until (\<lambda>s. length (entropy s) > 0) []
      \<lparr>entropy = [1, 2, 3], producer_wakes = 0, consumer_wakes = 0, sg_log = []\<rparr>
     = Some \<lparr>entropy = [1, 2, 3], producer_wakes = 0, consumer_wakes = 0, sg_log = []\<rparr> \<and>
   (\<exists>buf' s'. get_random_bytes [] (\<lambda>_. 0) 5
        \<lparr>entropy = [1, 2, 3], producer_wakes = 0, consumer_wakes = 0, sg_log = []\<rparr>
      = Some (3, buf', s') \<and> buf' 0 = 1 \<and> buf' 2 = 3 \<and> buf' 3 = 0 \<and> entropy s' = [] \<and>
        producer_wakes s' = 1)"
  using get_random_bytes_spec [of "[]"
      "\<lparr>entropy = [1, 2, 3], producer_wakes = 0, consumer_wakes = 0, sg_log = []\<rparr>"
      "\<lambda>_. 0" 5]
  by (simp add: get_random_bytes_def copy_n_def)

text \<open>
  Claim C10. A request for 0 bytes blocks on an empty pool like any other request;
  once the pool is not empty it leaves pool and buffer as they are, wakes
  \<open>_producer\<close> once and returns 0.
\<close>

theorem get_random_bytes_zero:
  "(entropy s = [] \<longrightarrow> get_random_bytes [] buf 0 s = None) \<and>
   (wait_until (\<lambda>s. length (entropy s) > 0) sched s = None \<longrightarrow>
      get_random_bytes sched buf 0 s = None) \<and>
   (\<forall>s1. wait_until (\<lambda>s. length (entropy s) > 0) sched s = Some s1 \<longrightarrow>
      length (entropy s1) > 0 \<and>
      get_random_bytes sched buf 0 s =
        Some (0, buf, s1\<lparr>producer_wakes := producer_wakes s1 + 1\<rparr>))"
  by (auto simp: get_random_bytes_def copy_n_def dest: wait_until_Some)

theorem get_random_bytes_zero_witness:
  "get_random_bytes [] (\<lambda>_. 7) 0 \<lparr>entropy = [], producer_wakes = 0, consumer_wakes = 0, sg_log = []\<rparr> = None \<and>
   get_random_bytes [\<lambda>s. s\<lparr>entropy := entropy s @ [9]\<rparr>] (\<lambda>_. 7) 0
       \<lparr>entropy = [], producer_wakes = 0, consumer_wakes = 0, sg_log = []\<rparr>
     = Some (0, \<lambda>_. 7, \<lparr>entropy = [9], producer_wakes = 1, consumer_wakes = 0, sg_log = []\<rparr>)"
  using get_random_bytes_zero [where sched = "[]" and buf = "\<lambda>_. 7"
      and s = "\<lparr>entropy = [], producer_wakes = 0, consumer_wakes = 0, sg_log = []\<rparr>"]
    get_random_bytes_zero [where sched = "[\<lambda>s. s\<lparr>entropy := entropy s @ [9]\<rparr>]" and buf = "\<lambda>_. 7"
      and s = "\<lparr>entropy = [], producer_wakes = 0, consumer_wakes = 0, sg_log = []\<rparr>"]
  by simp

subsection \<open>TX queue selection\<close>

text \<open>
  Claim C9, evaluated on a device with one RX/TX pair (\<open>_num_queues = 2\<close>) for a
  transmit issued on CPU 3: \<open>pick_txq\<close> returns 3, which is not below the number of
  pairs and is not the CPU index reduced modulo the number of pairs.
\<close>

theorem pick_txq_unbounded:
  "fst (pick_txq 2 3) = 3 \<and> \<not> fst (pick_txq 2 3) < 2 div 2 \<and> fst (pick_txq 2 3) \<noteq> 3 mod (2 div 2)"
  by (simp add: pick_txq_def)

subsection \<open>The bound on the entropy pool\<close>

text \<open>
  Claim C3, as amended. From a pool of at most \<open>P\<close> bytes: a consumer only removes
  bytes, from the front; with fewer than \<open>P\<close> bytes in the pool and a device that
  completes the buffer, an iteration of the producer comes back; one that comes back
  has run its refill from a state \<open>s1\<close> with fewer than \<open>P\<close> bytes, has staged one
  host-writable buffer of exactly \<open>P - |pool s1|\<close> bytes, and has appended exactly the
  length the device reported to what the consumers left meanwhile, so that the pool
  still holds at most \<open>P\<close> bytes if that length is at most the size of the buffer;
  with exactly \<open>P\<close> bytes and no consumer running the producer stays blocked; hence
  every sequence of consumer calls and producer iterations in which the device never
  reports more than the buffer it was given keeps the pool within \<open>P\<close>.
\<close>

theorem entropy_pool_bound:
  "length (entropy s) \<le> P \<longrightarrow>
     (\<forall>sz. entropy (consumer sz s) = drop (min (length (entropy s)) sz) (entropy s)) \<and>
     (\<forall>waiting during len written. length (entropy s) < P \<longrightarrow>
        (\<exists>s'. worker_iteration P waiting during (Some (len, written)) s = Inr s')) \<and>
     (\<forall>waiting during reply s'. worker_iteration P waiting during reply s = Inr s' \<longrightarrow>
        (\<exists>s1 len written.
           wait_until (\<lambda>s. length (entropy s) < P) (map consumer waiting) s = Some s1 \<and>
           length (entropy s1) < P \<and>
           reply = Some (len, written) \<and>
           sg_log s' = (P - length (entropy s1)) # sg_log s1 \<and>
           length (entropy s') = length (entropy (fold consumer during s1)) + unat len \<and>
           (unat len \<le> P - length (entropy s1) \<longrightarrow> length (entropy s') \<le> P))) \<and>
     (\<forall>during reply. length (entropy s) = P \<longrightarrow>
        worker_iteration P [] during reply s = Inl Pool_full) \<and>
     (\<forall>evs s'. replies_in_bounds P evs s \<and> rng_run P evs s = Inr s' \<longrightarrow>
        length (entropy s') \<le> P)"
proof (intro impI conjI allI)
  fix sz show "entropy (consumer sz s) = drop (min (length (entropy s)) sz) (entropy s)"
    by (rule consumer_entropy)
next
  fix waiting during :: "nat list" and len :: "32 word" and written :: "8 word list"
  assume "length (entropy s) < P"
  then show "\<exists>s'. worker_iteration P waiting during (Some (len, written)) s = Inr s'"
    by (rule worker_iteration_returns)
next
  fix waiting during reply s'
  assume "worker_iteration P waiting during reply s = Inr s'"
  from worker_iteration_Inr [OF this]
  show "\<exists>s1 len written.
           wait_until (\<lambda>s. length (entropy s) < P) (map consumer waiting) s = Some s1 \<and>
           length (entropy s1) < P \<and>
           reply = Some (len, written) \<and>
           sg_log s' = (P - length (entropy s1)) # sg_log s1 \<and>
           length (entropy s') = length (entropy (fold consumer during s1)) + unat len \<and>
           (unat len \<le> P - length (entropy s1) \<longrightarrow> length (entropy s') \<le> P)"
    by blast
next
  fix during reply
  assume "length (entropy s) = P"
  then show "worker_iteration P [] during reply s = Inl Pool_full"
    by (simp add: worker_iteration_def)
next
  fix evs s'
  assume "length (entropy s) \<le> P" "replies_in_bounds P evs s \<and> rng_run P evs s = Inr s'"
  then show "length (entropy s') \<le> P" using rng_run_bound by blast
qed

theorem entropy_pool_bound_witness:
  "length (entropy \<lparr>entropy = [1, 2], producer_wakes = 0, consumer_wakes = 0, sg_log = []\<rparr>) \<le> 4 \<and>
   replies_in_bounds 4 [Produce [] [1] (Some (2, [5, 6, 7])), Get 2]
       \<lparr>entropy = [1, 2], producer_wakes = 0, consumer_wakes = 0, sg_log = []\<rparr> \<and>
   worker_iteration 4 [] [1] (Some (2, [5, 6, 7]))
       \<lparr>entropy = [1, 2], producer_wakes = 0, consumer_wakes = 0, sg_log = []\<rparr>
     = Inr \<lparr>entropy = [2, 5, 6], producer_wakes = 1, consumer_wakes = 1, sg_log = [2]\<rparr> \<and>
   rng_run 4 [Produce [] [1] (Some (2, [5, 6, 7])), Get 2]
       \<lparr>entropy = [1, 2], producer_wakes = 0, consumer_wakes = 0, sg_log = []\<rparr>
     = Inr \<lparr>entropy = [6], producer_wakes = 2, consumer_wakes = 1, sg_log = [2]\<rparr> \<and>
   length (entropy \<lparr>entropy = [6], producer_wakes = 2, consumer_wakes = 1, sg_log = [2]\<rparr>) \<le> 4 \<and>
   worker_iteration 4 [] [] (Some (2, [5, 6]))
       \<lparr>entropy = [1, 2, 3, 4], producer_wakes = 0, consumer_wakes = 0, sg_log = []\<rparr>
     = Inl Pool_full"
proof -
  let ?s = "\<lparr>entropy = [1, 2], producer_wakes = 0, consumer_wakes = 0, sg_log = []\<rparr>"
  let ?evs = "[Produce [] [1] (Some (2, [5, 6, 7])), Get 2]"
  have inv: "length (entropy ?s) \<le> 4" by simp
  have w: "worker_iteration 4 [] [1] (Some (2, [5, 6, 7])) ?s
      = Inr \<lparr>entropy = [2, 5, 6], producer_wakes = 1, consumer_wakes = 1, sg_log = [2]\<rparr>"
    by (simp add: worker_iteration_def refill_def consumer_eq Let_def)
  have b: "replies_in_bounds 4 ?evs ?s"
    by (simp add: worker_iteration_def refill_def consumer_eq Let_def)
  have r: "rng_run 4 ?evs ?s
      = Inr \<lparr>entropy = [6], producer_wakes = 2, consumer_wakes = 1, sg_log = [2]\<rparr>"
    by (simp add: worker_iteration_def refill_def consumer_eq Let_def)
  from entropy_pool_bound [of ?s 4] inv b r
  have "length (entropy \<lparr>entropy = [6], producer_wakes = 2, consumer_wakes = 1, sg_log = [2]\<rparr>) \<le> 4"
    by blast
  moreover from entropy_pool_bound
      [of "\<lparr>entropy = [1, 2, 3, 4], producer_wakes = 0, consumer_wakes = 0, sg_log = []\<rparr>" 4]
  have "worker_iteration 4 [] [] (Some (2, [5, 6]))
       \<lparr>entropy = [1, 2, 3, 4], producer_wakes = 0, consumer_wakes = 0, sg_log = []\<rparr>
     = Inl Pool_full"
    by simp
  ultimately show ?thesis using inv b w r by blast
qed

text \<open>
  The claim as first stated has the bound hold after every producer step. A device
  that reports 6 bytes for the buffer of 2 bytes it was given makes the iteration
  come back with 8 bytes in a pool whose capacity is 4.
\<close>

theorem entropy_pool_bound_counterexample:
  "length (entropy \<lparr>entropy = [1, 2], producer_wakes = 0, consumer_wakes = 0, sg_log = []\<rparr>) \<le> 4 \<and>
   worker_iteration 4 [] [] (Some (6, [5, 6]))
       \<lparr>entropy = [1, 2], producer_wakes = 0, consumer_wakes = 0, sg_log = []\<rparr>
     = Inr \<lparr>entropy = [1, 2, 5, 6, 0, 0, 0, 0], producer_wakes = 0, consumer_wakes = 1,
            sg_log = [2]\<rparr> \<and>
   \<not> length (entropy \<lparr>entropy = [1, 2, 5, 6, 0, 0, 0, 0], producer_wakes = 0,
                        consumer_wakes = 1, sg_log = [2]\<rparr>) \<le> 4"
proof -
  have u: "unat (6 :: 32 word) = 6" by simp
  have r: "replicate 4 (0 :: 8 word) = [0, 0, 0, 0]" by (simp add: numeral_eq_Suc)
  show ?thesis by (simp add: worker_iteration_def refill_def Let_def u r)
qed

subsection \<open>Receive checksum validation\<close>

text \<open>
  Claim C6, as amended. \<open>bad_rx_csum\<close> reports a bad checksum exactly when
  \<open>csum_start + csum_offset\<close> is below the ethernet plus IP header sizes, or the first
  fragment is shorter than \<open>csum_start + csum_offset\<close>, or the EtherType (after a VLAN
  tag) is not IPv4, or \<open>csum_offset\<close> is neither the UDP nor the TCP checksum offset,
  or \<open>csum_offset\<close> is the UDP one and the first fragment is shorter than
  \<open>csum_start\<close> plus a UDP header. A rejected packet is left as it was. An accepted
  packet with the UDP offset and a zero UDP checksum is left as it was; every other
  accepted packet gets \<open>CSUM_DATA_VALID | CSUM_PSEUDO_HDR\<close> or-ed into its checksum
  flags and \<open>csum_data = 0xFFFF\<close>.
\<close>

theorem bad_rx_csum_decision:
  "(fst (bad_rx_csum m hdr) \<longleftrightarrow>
      uint (csum_start hdr) + uint (csum_offset hdr) < sizeof_ether_header + sizeof_ip \<or>
      mh_len m < uint (csum_start hdr) + uint (csum_offset hdr) \<or>
      rx_eth_type m \<noteq> ETHERTYPE_IP \<or>
      (csum_offset hdr \<noteq> offsetof_uh_sum \<and> csum_offset hdr \<noteq> offsetof_th_sum) \<or>
      (csum_offset hdr = offsetof_uh_sum \<and> mh_len m < uint (csum_start hdr) + sizeof_udphdr)) \<and>
   (fst (bad_rx_csum m hdr) \<longrightarrow> snd (bad_rx_csum m hdr) = m) \<and>
   (\<not> fst (bad_rx_csum m hdr) \<and> csum_offset hdr = offsetof_uh_sum \<and> rx_uh_sum m hdr = 0 \<longrightarrow>
      snd (bad_rx_csum m hdr) = m) \<and>
   (\<not> fst (bad_rx_csum m hdr) \<and> \<not> (csum_offset hdr = offsetof_uh_sum \<and> rx_uh_sum m hdr = 0) \<longrightarrow>
      snd (bad_rx_csum m hdr) =
        m\<lparr>csum_flags := csum_flags m OR (CSUM_DATA_VALID OR CSUM_PSEUDO_HDR), csum_data := 0xFFFF\<rparr>)"
  by (simp add: bad_rx_csum_def Let_def offsetof_uh_sum_def offsetof_th_sum_def)


theorem bad_rx_csum_decision_witness:
  "bad_rx_csum
     \<lparr>mh_len = 60, mh_data = replicate 12 0 @ [0x08, 0x00] @ replicate 46 0,
        csum_flags = 1, csum_data = 0\<rparr>
     \<lparr>flags = 1, gso_type = 0, hdr_len = 0, gso_size = 0, csum_start = 34, csum_offset = 16\<rparr>
   = (False, \<lparr>mh_len = 60, mh_data = replicate 12 0 @ [0x08, 0x00] @ replicate 46 0,
        csum_flags = 0xC01, csum_data = 0xFFFF\<rparr>)"
  using bad_rx_csum_decision [of
     "\<lparr>mh_len = 60, mh_data = replicate 12 0 @ [0x08, 0x00] @ replicate 46 0,
        csum_flags = 1, csum_data = 0\<rparr>"
     "\<lparr>flags = 1, gso_type = 0, hdr_len = 0, gso_size = 0, csum_start = 34, csum_offset = 16\<rparr>"]
  by (simp add: prod_eq_iff sizeof_ether_header_def sizeof_ip_def sizeof_udphdr_def
      offsetof_uh_sum_def offsetof_th_sum_def rx_eth_type_def ntohs_at_def nth_append
      ETHERTYPE_VLAN_def ETHERTYPE_IP_def CSUM_DATA_VALID_def CSUM_PSEUDO_HDR_def)

text \<open>
  The claim as first stated fails twice. A TCP frame of 60 bytes with
  \<open>csum_start + csum_offset = 50\<close>, shorter than the fragment, is accepted. A UDP
  frame whose first fragment is 40 bytes long with \<open>csum_start = 34\<close> meets none of
  the stated reasons to reject, and is rejected.
\<close>

theorem bad_rx_csum_counterexample:
  "uint (34 :: 16 word) + uint (16 :: 16 word) < 60 \<and>
   \<not> fst (bad_rx_csum
     \<lparr>mh_len = 60, mh_data = replicate 12 0 @ [0x08, 0x00] @ replicate 46 0,
        csum_flags = 0, csum_data = 0\<rparr>
     \<lparr>flags = 1, gso_type = 0, hdr_len = 0, gso_size = 0, csum_start = 34, csum_offset = 16\<rparr>) \<and>
   \<not> uint (34 :: 16 word) + uint (6 :: 16 word) < sizeof_ether_header + sizeof_ip \<and>
   uint (34 :: 16 word) + uint (6 :: 16 word) = 40 \<and>
   rx_eth_type \<lparr>mh_len = 40, mh_data = replicate 12 0 @ [0x08, 0x00] @ replicate 46 0,
        csum_flags = 0, csum_data = 0\<rparr> = ETHERTYPE_IP \<and>
   offsetof_uh_sum = 6 \<and>
   fst (bad_rx_csum
     \<lparr>mh_len = 40, mh_data = replicate 12 0 @ [0x08, 0x00] @ replicate 46 0,
        csum_flags = 0, csum_data = 0\<rparr>
     \<lparr>flags = 1, gso_type = 0, hdr_len = 0, gso_size = 0, csum_start = 34, csum_offset = 6\<rparr>)"
  by (simp add: bad_rx_csum_def sizeof_ether_header_def sizeof_ip_def sizeof_udphdr_def
      offsetof_uh_sum_def offsetof_th_sum_def rx_eth_type_def ntohs_at_def nth_append
      ETHERTYPE_VLAN_def ETHERTYPE_IP_def)

subsection \<open>Device status during probe\<close>

text \<open>
  Claim C7, as amended. When the constructor of the entropy device returns, the
  driver has enabled bus mastering and MSI-X, written status 0, then written
  \<open>ACKNOWLEDGE | DRIVER\<close> in one write, then configured queues without touching the
  status register, and last written \<open>ACKNOWLEDGE | DRIVER | DRIVER_OK\<close>, which is what
  the register holds. \<open>add_dev_status\<close> keeps every bit the register had and adds
  the bits asked for, in one write.
\<close>

theorem status_progression:
  "(\<forall>d'. rng_ctor m n d0 = Inr d' \<longrightarrow>
      (\<exists>qs. trace d' = trace d0 @
               [Set_bus_master, Msix_enable, Write_status 0,
                Write_status (VIRTIO_CONFIG_S_ACKNOWLEDGE OR VIRTIO_CONFIG_S_DRIVER)] @ qs @
               [Write_status (VIRTIO_CONFIG_S_ACKNOWLEDGE OR VIRTIO_CONFIG_S_DRIVER OR
                              VIRTIO_CONFIG_S_DRIVER_OK)] \<and>
             status_writes qs = []) \<and>
      reg_status d' = VIRTIO_CONFIG_S_ACKNOWLEDGE OR VIRTIO_CONFIG_S_DRIVER OR
                      VIRTIO_CONFIG_S_DRIVER_OK) \<and>
   (\<forall>v d1. add_dev_status v d0 = Inr d1 \<longrightarrow>
      reg_status d1 AND reg_status d0 = reg_status d0 \<and> reg_status d1 AND v = v \<and>
      trace d1 = trace d0 @ [Write_status (reg_status d1)])"
proof (intro conjI allI impI)
  fix d'
  assume r: "rng_ctor m n d0 = Inr d'"
  then obtain d1 d2 where c: "virtio_driver m d0 = Inr d1"
    and p: "probe_virt_queues m n d1 = Inr d2"
    and a: "add_dev_status VIRTIO_CONFIG_S_DRIVER_OK d2 = Inr d'"
    by (auto simp: rng_ctor_def split: sum.splits)
  note v = virtio_driver_Inr [OF c]
  from probe_virt_queues_frame [OF p] obtain qs where
    f: "reg_status d2 = reg_status d1" "trace d2 = trace d1 @ qs" "status_writes qs = []"
    by blast
  note e = add_dev_status_Inr [OF a]
  show "reg_status d' = VIRTIO_CONFIG_S_ACKNOWLEDGE OR VIRTIO_CONFIG_S_DRIVER OR
                      VIRTIO_CONFIG_S_DRIVER_OK"
    using e f v by (simp add: act_def or.assoc)
  have "trace d' = trace d0 @
               [Set_bus_master, Msix_enable, Write_status 0,
                Write_status (VIRTIO_CONFIG_S_ACKNOWLEDGE OR VIRTIO_CONFIG_S_DRIVER)] @ qs @
               [Write_status (VIRTIO_CONFIG_S_ACKNOWLEDGE OR VIRTIO_CONFIG_S_DRIVER OR
                              VIRTIO_CONFIG_S_DRIVER_OK)]"
    using e f v by (simp add: act_def or.assoc)
  with f(3) show "\<exists>qs. trace d' = trace d0 @
               [Set_bus_master, Msix_enable, Write_status 0,
                Write_status (VIRTIO_CONFIG_S_ACKNOWLEDGE OR VIRTIO_CONFIG_S_DRIVER)] @ qs @
               [Write_status (VIRTIO_CONFIG_S_ACKNOWLEDGE OR VIRTIO_CONFIG_S_DRIVER OR
                              VIRTIO_CONFIG_S_DRIVER_OK)] \<and>
             status_writes qs = []"
    by blast
next
  fix v d1
  assume "add_dev_status v d0 = Inr d1"
  note e = add_dev_status_Inr [OF this]
  show "reg_status d1 AND reg_status d0 = reg_status d0"
    using e by (simp add: act_def word_bw_comms word_ao_absorbs)
  show "reg_status d1 AND v = v"
    using e by (simp add: act_def word_bw_comms word_ao_absorbs)
  show "trace d1 = trace d0 @ [Write_status (reg_status d1)]"
    using e by (simp add: act_def)
qed

theorem status_progression_witness:
  "\<exists>d'. rng_ctor 2 1
       \<lparr>pci_parse_ok = True, pci_has_bar1 = True, revision_id = 0, device_id = 0x1005,
        is_msix = True, host_queue_num = [256], host_queue_vector = [0], vring_paddr = [0x10000],
        reg_status = 0, reg_queue_sel = 0, bar1 = False, num_queues = 0, queues = [],
        trace = []\<rparr> = Inr d' \<and>
     reg_status d' = 7 \<and> status_writes (trace d') = [0, 3, 7]"
proof -
  let ?D = "\<lparr>pci_parse_ok = True, pci_has_bar1 = True, revision_id = 0, device_id = 0x1005,
        is_msix = True, host_queue_num = [256], host_queue_vector = [0], vring_paddr = [0x10000],
        reg_status = 0, reg_queue_sel = 0, bar1 = False, num_queues = 0, queues = [],
        trace = []\<rparr>"
  have "\<not> isl (rng_ctor 2 1 ?D)" by code_simp
  then obtain d' where d': "rng_ctor 2 1 ?D = Inr d'" by (cases "rng_ctor 2 1 ?D") auto
  from status_progression [of 2 1 ?D] d'
  have "reg_status d' = 7 \<and> status_writes (trace d') = [0, 3, 7]"
    by (auto simp: status_writes_append VIRTIO_CONFIG_S_ACKNOWLEDGE_def
        VIRTIO_CONFIG_S_DRIVER_def VIRTIO_CONFIG_S_DRIVER_OK_def)
  with d' show ?thesis by blast
qed

text \<open>
  The claim as first stated wants \<open>ACKNOWLEDGE\<close> written on its own before
  \<open>DRIVER\<close>. The status register of a device probed with success receives 0, then
  \<open>ACKNOWLEDGE | DRIVER\<close>, then 7: \<open>ACKNOWLEDGE\<close> alone is never written.
\<close>

theorem status_progression_counterexample:
  "status_writes (trace (projr (rng_ctor 2 1
       \<lparr>pci_parse_ok = True, pci_has_bar1 = True, revision_id = 0, device_id = 0x1005,
        is_msix = True, host_queue_num = [256], host_queue_vector = [0], vring_paddr = [0x10000],
        reg_status = 0, reg_queue_sel = 0, bar1 = False, num_queues = 0, queues = [],
        trace = []\<rparr>))) = [0, VIRTIO_CONFIG_S_ACKNOWLEDGE OR VIRTIO_CONFIG_S_DRIVER, 7] \<and>
   VIRTIO_CONFIG_S_ACKNOWLEDGE \<noteq> VIRTIO_CONFIG_S_ACKNOWLEDGE OR VIRTIO_CONFIG_S_DRIVER \<and>
   VIRTIO_CONFIG_S_ACKNOWLEDGE \<notin> set (status_writes (trace (projr (rng_ctor 2 1
       \<lparr>pci_parse_ok = True, pci_has_bar1 = True, revision_id = 0, device_id = 0x1005,
        is_msix = True, host_queue_num = [256], host_queue_vector = [0], vring_paddr = [0x10000],
        reg_status = 0, reg_queue_sel = 0, bar1 = False, num_queues = 0, queues = [],
        trace = []\<rparr>))))"
  by code_simp

subsection \<open>Probe of a device that fails the configuration checks\<close>

text \<open>
  Claim C4, evaluated on two devices. For a device with BAR1 and revision 1, not the
  ABI version, \<open>parse_pci_config\<close> returns false and the constructor goes on to
  enable bus mastering and MSI-X and to write the status register twice. For a device
  without BAR1, \<open>parse_pci_config\<close> returns false and the constructor enables bus
  mastering and MSI-X before the status write goes through the null \<open>_bar1\<close>.
\<close>

theorem virtio_driver_ignores_parse_pci_config:
  "\<not> fst (parse_pci_config
       \<lparr>pci_parse_ok = True, pci_has_bar1 = True, revision_id = 1, device_id = 0x1005,
        is_msix = True, host_queue_num = [256], host_queue_vector = [0], vring_paddr = [0x10000],
        reg_status = 0, reg_queue_sel = 0, bar1 = False, num_queues = 0, queues = [],
        trace = []\<rparr>) \<and>
   virtio_driver 2
       \<lparr>pci_parse_ok = True, pci_has_bar1 = True, revision_id = 1, device_id = 0x1005,
        is_msix = True, host_queue_num = [256], host_queue_vector = [0], vring_paddr = [0x10000],
        reg_status = 0, reg_queue_sel = 0, bar1 = False, num_queues = 0, queues = [],
        trace = []\<rparr>
     = Inr \<lparr>pci_parse_ok = True, pci_has_bar1 = True, revision_id = 1, device_id = 0x1005,
        is_msix = True, host_queue_num = [256], host_queue_vector = [0], vring_paddr = [0x10000],
        reg_status = 3, reg_queue_sel = 0, bar1 = True, num_queues = 0, queues = [None, None],
        trace = [Set_bus_master, Msix_enable, Write_status 0, Write_status 3]\<rparr> \<and>
   \<not> fst (parse_pci_config
       \<lparr>pci_parse_ok = True, pci_has_bar1 = False, revision_id = 0, device_id = 0x1005,
        is_msix = True, host_queue_num = [256], host_queue_vector = [0], vring_paddr = [0x10000],
        reg_status = 0, reg_queue_sel = 0, bar1 = False, num_queues = 0, queues = [],
        trace = []\<rparr>) \<and>
   virtio_driver 2
       \<lparr>pci_parse_ok = True, pci_has_bar1 = False, revision_id = 0, device_id = 0x1005,
        is_msix = True, host_queue_num = [256], host_queue_vector = [0], vring_paddr = [0x10000],
        reg_status = 0, reg_queue_sel = 0, bar1 = False, num_queues = 0, queues = [],
        trace = []\<rparr>
     = Inl (Null_bar1 \<lparr>pci_parse_ok = True, pci_has_bar1 = False, revision_id = 0, device_id = 0x1005,
        is_msix = True, host_queue_num = [256], host_queue_vector = [0], vring_paddr = [0x10000],
        reg_status = 0, reg_queue_sel = 0, bar1 = False, num_queues = 0, queues = [None, None],
        trace = [Set_bus_master, Msix_enable]\<rparr>)"
  by code_simp

subsection \<open>Queue enumeration\<close>

text \<open>
  Claim C8, as amended. With \<open>_bar1\<close> set the enumeration returns. When it
  returns it has visited the indices from the old queue count upwards, in order: each
  queue counted was selected, had its non-zero size read, got a vring of that size,
  had its own index written and read back as MSI-X vector when MSI-X is on, and had
  its frame number written. It ends before touching the device once the count has
  reached the cap, ends after a queue once the count has reached \<open>2 * ncpus\<close>,
  ends at a queue of size 0 after reading the size, and ends at a queue whose vector
  does not read back as its index after the read-back, with the vring created but
  the queue not counted and no frame number written.
\<close>

theorem probe_virt_queues_enumeration:
  "(bar1 d \<longrightarrow> (\<exists>d'. probe_virt_queues m n d = Inr d')) \<and>
   (\<forall>d'. probe_virt_queues m n d = Inr d' \<longrightarrow> (\<exists>r. enumerated m n d d' r))"
  using probe_virt_queues_returns [of d m n] probe_virt_queues_enumerated [of m n d] by blast

theorem probe_virt_queues_enumeration_witness:
  "bar1 \<lparr>pci_parse_ok = True, pci_has_bar1 = True, revision_id = 0, device_id = 0x1005,
        is_msix = True, host_queue_num = [256, 128, 64], host_queue_vector = [0, 1, 2],
        vring_paddr = [0x10000, 0x20000, 0x30000],
        reg_status = 3, reg_queue_sel = 0, bar1 = True, num_queues = 0, queues = [None, None, None, None],
        trace = []\<rparr> \<and>
   (\<exists>d'. probe_virt_queues 4 1
       \<lparr>pci_parse_ok = True, pci_has_bar1 = True, revision_id = 0, device_id = 0x1005,
        is_msix = True, host_queue_num = [256, 128, 64], host_queue_vector = [0, 1, 2],
        vring_paddr = [0x10000, 0x20000, 0x30000],
        reg_status = 3, reg_queue_sel = 0, bar1 = True, num_queues = 0, queues = [None, None, None, None],
        trace = []\<rparr> = Inr d' \<and>
      num_queues d' = 2 \<and>
      enumerated 4 1
       \<lparr>pci_parse_ok = True, pci_has_bar1 = True, revision_id = 0, device_id = 0x1005,
        is_msix = True, host_queue_num = [256, 128, 64], host_queue_vector = [0, 1, 2],
        vring_paddr = [0x10000, 0x20000, 0x30000],
        reg_status = 3, reg_queue_sel = 0, bar1 = True, num_queues = 0, queues = [None, None, None, None],
        trace = []\<rparr> d' Enough_queues)"
proof -
  let ?D = "\<lparr>pci_parse_ok = True, pci_has_bar1 = True, revision_id = 0, device_id = 0x1005,
        is_msix = True, host_queue_num = [256, 128, 64], host_queue_vector = [0, 1, 2],
        vring_paddr = [0x10000, 0x20000, 0x30000],
        reg_status = 3, reg_queue_sel = 0, bar1 = True, num_queues = 0, queues = [None, None, None, None],
        trace = []\<rparr>"
  have b: "bar1 ?D" by simp
  with probe_virt_queues_enumeration [of ?D 4 1]
  obtain d' r where d': "probe_virt_queues 4 1 ?D = Inr d'" and r: "enumerated 4 1 ?D d' r"
    by blast
  have n: "num_queues (projr (probe_virt_queues 4 1 ?D)) = 2"
    by (simp add: probe_virt_queues.simps probe_queue_def read_queue_num_def
        read_queue_vector_def act_def Let_def)
  with d' have n': "num_queues d' = 2" by simp
  have q: "queue_num_of ?D 2 = 64" "unat (queue_vector_of ?D 2) = 2"
    by (simp_all add: queue_num_of_def queue_vector_of_def read_queue_num_def
        read_queue_vector_def)
  from r n' have "stop_cond 4 1 ?D 0 2 r" by (simp add: enumerated_def)
  with q have "r = Enough_queues" by (cases r) simp_all
  with b d' r n' show ?thesis by blast
qed

text \<open>
  The claim as first stated has every queue of non-zero size below the cap end with
  its frame number written. With MSI-X on and the vector of queue 0 reading back as
  \<open>0xFFFF\<close>, the enumeration ends with no queue counted and no frame number
  written.
\<close>

theorem probe_virt_queues_enumeration_counterexample:
  "queue_num_of
       \<lparr>pci_parse_ok = True, pci_has_bar1 = True, revision_id = 0, device_id = 0x1005,
        is_msix = True, host_queue_num = [256], host_queue_vector = [0xFFFF], vring_paddr = [0x10000],
        reg_status = 3, reg_queue_sel = 0, bar1 = True, num_queues = 0, queues = [None, None],
        trace = []\<rparr> 0 = 256 \<and>
   probe_virt_queues 2 1
       \<lparr>pci_parse_ok = True, pci_has_bar1 = True, revision_id = 0, device_id = 0x1005,
        is_msix = True, host_queue_num = [256], host_queue_vector = [0xFFFF], vring_paddr = [0x10000],
        reg_status = 3, reg_queue_sel = 0, bar1 = True, num_queues = 0, queues = [None, None],
        trace = []\<rparr>
     = Inr \<lparr>pci_parse_ok = True, pci_has_bar1 = True, revision_id = 0, device_id = 0x1005,
        is_msix = True, host_queue_num = [256], host_queue_vector = [0xFFFF], vring_paddr = [0x10000],
        reg_status = 3, reg_queue_sel = 0, bar1 = True, num_queues = 0, queues = [Some 256, None],
        trace = [Write_queue_sel 0, Read_queue_num, New_vring 0 256, Write_queue_vector 0,
                 Read_queue_vector]\<rparr>"
  by (simp add: probe_virt_queues.simps probe_queue_def queue_num_of_def read_queue_num_def
      read_queue_vector_def act_def Let_def)

subsection \<open>Waiting for a queue\<close>



subsection \<open>Transmit on a full ring\<close>

text \<open>
  Claim C5. Take a transmit whose offload step, if any, succeeded, and whose staged
  scatter-gather finds too few free descriptors. If no completion is pending on the
  used ring, \<open>tx_locked\<close> fails with \<open>ENOBUFS\<close>, \<open>tx_drops\<close> goes up by 1, and
  nothing else changes but the staging vector: nothing is published or reclaimed. If
  completions are pending, \<open>tx_gc\<close> reclaims them all, giving their descriptors back,
  and the publish is tried once on the result: with room now the chain is published
  and the call succeeds; without, the call fails with \<open>ENOBUFS\<close> and \<open>tx_drops\<close>
  goes up by 1. There is no second drain.
\<close>

theorem tx_locked_ring_full:
  assumes off: "(if csum_flags (fst m_head) \<noteq> 0 then offload
                 else Some (m_head, mhdr_hdr req0)) = Some (m, hdr)"
    and stage: "tx_stage hdr_size m (vqueue txq) = (vq, bytes, nbufs)"
    and full: "\<not> avail_ring_has_room (length (sg_vec vq)) vq"
  shows "(\<not> used_ring_not_empty vq \<longrightarrow>
            tx_locked hdr_size req0 offload m_head txq =
              (ENOBUFS, txq\<lparr>vqueue := vq,
                            stats := (stats txq)\<lparr>tx_drops := tx_drops (stats txq) + 1\<rparr>\<rparr>) \<and>
            avail vq = avail (vqueue txq) \<and> used vq = [] \<and>
            free_desc vq = free_desc (vqueue txq)) \<and>
         (used_ring_not_empty vq \<longrightarrow>
            used (tx_gc vq) = [] \<and>
            free_desc (tx_gc vq) =
              free_desc (vqueue txq) + sum_list (map (\<lambda>(c, n, l). n) (used (vqueue txq))) \<and>
            avail (tx_gc vq) = avail (vqueue txq) \<and> sg_vec (tx_gc vq) = sg_vec vq \<and>
            tx_locked hdr_size req0 offload m_head txq =
              (if avail_ring_has_room (length (sg_vec vq)) (tx_gc vq)
               then (0, txq\<lparr>vqueue := snd (add_buf
                                 (req0\<lparr>um := m_head, mhdr_hdr := hdr,
                                       num_buffers := num_buffers req0 + nbufs\<rparr>) (tx_gc vq)),
                            stats := tx_update_stats 0 bytes hdr (stats txq)\<rparr>)
               else (ENOBUFS, txq\<lparr>vqueue := tx_gc vq,
                            stats := (stats txq)\<lparr>tx_drops := tx_drops (stats txq) + 1\<rparr>\<rparr>)))"
proof (intro conjI impI)
  note f = tx_stage_frame [OF stage]
  have off': "(if csum_flags (fst m_head) \<noteq> 0 then offload
               else Some (m_head, mhdr_hdr (req0\<lparr>um := m_head\<rparr>))) = Some (m, hdr)"
    using off by (simp split: if_splits)
  {
    assume e: "\<not> used_ring_not_empty vq"
    show "tx_locked hdr_size req0 offload m_head txq =
              (ENOBUFS, txq\<lparr>vqueue := vq,
                            stats := (stats txq)\<lparr>tx_drops := tx_drops (stats txq) + 1\<rparr>\<rparr>)"
      unfolding tx_locked_def Let_def off'
      using stage full e by (simp add: tx_update_stats_def ENOBUFS_def)
    show "avail vq = avail (vqueue txq)" by (rule f)
    show "used vq = []" using e by (simp add: used_ring_not_empty_def)
    show "free_desc vq = free_desc (vqueue txq)" by (rule f)
  }
  {
    assume p: "used_ring_not_empty vq"
    show "used (tx_gc vq) = []" by (simp add: tx_gc_eq)
    show "free_desc (tx_gc vq) =
              free_desc (vqueue txq) + sum_list (map (\<lambda>(c, n, l). n) (used (vqueue txq)))"
      by (simp add: tx_gc_eq f)
    show "avail (tx_gc vq) = avail (vqueue txq)" by (simp add: tx_gc_eq f)
    show "sg_vec (tx_gc vq) = sg_vec vq" by (simp add: tx_gc_eq)
    have sg: "sg_vec (tx_gc vq) = sg_vec vq" by (simp add: tx_gc_eq)
    show "tx_locked hdr_size req0 offload m_head txq =
              (if avail_ring_has_room (length (sg_vec vq)) (tx_gc vq)
               then (0, txq\<lparr>vqueue := snd (add_buf
                                 (req0\<lparr>um := m_head, mhdr_hdr := hdr,
                                       num_buffers := num_buffers req0 + nbufs\<rparr>) (tx_gc vq)),
                            stats := tx_update_stats 0 bytes hdr (stats txq)\<rparr>)
               else (ENOBUFS, txq\<lparr>vqueue := tx_gc vq,
                            stats := (stats txq)\<lparr>tx_drops := tx_drops (stats txq) + 1\<rparr>\<rparr>))"
      unfolding tx_locked_def Let_def off'
      using stage full p sg
      by (simp add: tx_publish_def add_buf_def tx_update_stats_def ENOBUFS_def)
  }
qed


theorem tx_locked_ring_full_witness:
  "(let m = (\<lparr>mh_len = 4, mh_data = [1, 2, 3, 4], csum_flags = 0, csum_data = 0\<rparr>, []);
        hdr = \<lparr>flags = 0, gso_type = 0, hdr_len = 0, gso_size = 0, csum_start = 0, csum_offset = 0\<rparr>;
        req0 = \<lparr>mhdr_hdr = hdr, num_buffers = 0, um = m\<rparr>;
        st = \<lparr>tx_packets = 5, tx_bytes = 20, tx_drops = 0, tx_err = 0, tx_csum = 0, tx_tso = 0\<rparr>;
        vq0 = \<lparr>free_desc = 1, avail = [(req0, 2)], used = [], last_used_idx = 3, sg_vec = [],
               no_interrupt = True, event_idx = False, used_event = 0, kicks = 5\<rparr>;
        vq1 = \<lparr>free_desc = 1, avail = [], used = [(req0, 2, 0)], last_used_idx = 3, sg_vec = [],
               no_interrupt = True, event_idx = False, used_event = 0, kicks = 5\<rparr>
    in tx_locked 10 req0 None m \<lparr>vqueue = vq0, stats = st\<rparr> =
         (ENOBUFS, \<lparr>vqueue = vq0\<lparr>sg_vec := [(False, 10), (False, 4)]\<rparr>,
                    stats = st\<lparr>tx_drops := 1\<rparr>\<rparr>) \<and>
       tx_locked 10 req0 None m \<lparr>vqueue = vq1, stats = st\<rparr> =
         (0, \<lparr>vqueue = \<lparr>free_desc = 1, avail = [(req0\<lparr>num_buffers := 1\<rparr>, 2)], used = [],
                          last_used_idx = 4, sg_vec = [],
                          no_interrupt = True, event_idx = False, used_event = 0, kicks = 5\<rparr>,
              stats = st\<lparr>tx_packets := 6, tx_bytes := 24\<rparr>\<rparr>))"
proof -
  let ?m = "(\<lparr>mh_len = 4, mh_data = [1, 2, 3, 4], csum_flags = 0, csum_data = 0\<rparr>, [])"
  let ?hdr = "\<lparr>flags = 0, gso_type = 0, hdr_len = 0, gso_size = 0, csum_start = 0, csum_offset = 0\<rparr>"
  let ?req0 = "\<lparr>mhdr_hdr = ?hdr, num_buffers = 0, um = ?m\<rparr>"
  let ?st = "\<lparr>tx_packets = 5, tx_bytes = 20, tx_drops = 0, tx_err = 0, tx_csum = 0, tx_tso = 0\<rparr>"
  let ?vq0 = "\<lparr>free_desc = 1, avail = [(?req0, 2)], used = [], last_used_idx = 3, sg_vec = [],
               no_interrupt = True, event_idx = False, used_event = 0, kicks = 5\<rparr>"
  let ?vq1 = "\<lparr>free_desc = 1, avail = [], used = [(?req0, 2, 0)], last_used_idx = 3, sg_vec = [],
               no_interrupt = True, event_idx = False, used_event = 0, kicks = 5\<rparr>"
  have off: "(if csum_flags (fst ?m) \<noteq> 0 then None else Some (?m, mhdr_hdr ?req0)) = Some (?m, ?hdr)"
    by simp
  have s0: "tx_stage 10 ?m (vqueue \<lparr>vqueue = ?vq0, stats = ?st\<rparr>) =
      (?vq0\<lparr>sg_vec := [(False, 10), (False, 4)]\<rparr>, 4, 1)"
    by (simp add: tx_stage_def add_out_sg_def init_sg_def)
  have s1: "tx_stage 10 ?m (vqueue \<lparr>vqueue = ?vq1, stats = ?st\<rparr>) =
      (?vq1\<lparr>sg_vec := [(False, 10), (False, 4)]\<rparr>, 4, 1)"
    by (simp add: tx_stage_def add_out_sg_def init_sg_def)
  have f0: "\<not> avail_ring_has_room (length (sg_vec (?vq0\<lparr>sg_vec := [(False, 10), (False, 4)]\<rparr>)))
      (?vq0\<lparr>sg_vec := [(False, 10), (False, 4)]\<rparr>)"
    by (simp add: avail_ring_has_room_def)
  have f1: "\<not> avail_ring_has_room (length (sg_vec (?vq1\<lparr>sg_vec := [(False, 10), (False, 4)]\<rparr>)))
      (?vq1\<lparr>sg_vec := [(False, 10), (False, 4)]\<rparr>)"
    by (simp add: avail_ring_has_room_def)
  show ?thesis
    using tx_locked_ring_full [OF off s0 f0] tx_locked_ring_full [OF off s1 f1]
    by (simp add: used_ring_not_empty_def avail_ring_has_room_def add_buf_def tx_gc_eq
        tx_update_stats_def VIRTIO_NET_HDR_F_NEEDS_CSUM_def Let_def)
qed

end
